theory Spec2Isabelle
  imports Main "HOL-Library.Word" "HOL-Library.Char_ord" "HOL-Library.List_Lexorder"
begin

section \<open>rmfile: the pattern sets and their evaluator (src/rmfile/core.py)\<close>

text \<open>
  The development embeds the classes \<^verbatim>\<open>TestContext\<close>, \<^verbatim>\<open>TestSet\<close> with its four
  subclasses, \<^verbatim>\<open>_GcidHasher\<close> and \<^verbatim>\<open>TestSets\<close> of \<^verbatim>\<open>core.py\<close>.

  Python's \<^verbatim>\<open>str\<close> is modelled by \<^typ>\<open>string\<close>, read as a list of code points below
  256; \<^verbatim>\<open>bytes\<close> is a list of 8-bit words. Strings are ordered as Python orders them,
  code point by code point and then by length.

  What the program takes from libraries is written out where it is a few lines of
  well-known behaviour (\<^verbatim>\<open>str.strip\<close>, \<^verbatim>\<open>str.lower\<close>, \<^verbatim>\<open>bytes.hex\<close>,
  \<^verbatim>\<open>posixpath.basename\<close>) and is a parameter otherwise: the record \<open>lib\<close> holds the
  SHA-1 function behind \<^verbatim>\<open>hashlib.sha1\<close>, \<^verbatim>\<open>xlgcid.get_gcid_piece_size\<close> and
  \<^verbatim>\<open>io.DEFAULT_BUFFER_SIZE\<close>. Every theorem holds for all values of these parameters.
\<close>

subsection \<open>Strings and bytes\<close>

type_synonym byte = "8 word"

text \<open>The exceptions that the embedded code can raise.\<close>

datatype error = OSError | AssertionError | KeyError | NotImplementedError

text \<open>\<^verbatim>\<open>str.isspace\<close> on one code point below 256.\<close>

definition isspace :: "char \<Rightarrow> bool" where
  "isspace c = (of_char c \<in> {9, 10, 11, 12, 13, 28, 29, 30, 31, 32, 133, 160 :: nat})"

text \<open>\<^verbatim>\<open>str.strip()\<close>: white space is removed at both ends.\<close>

definition strip :: "string \<Rightarrow> string" where
  "strip s = rev (dropWhile isspace (rev (dropWhile isspace s)))"

text \<open>
  \<^verbatim>\<open>str.lower()\<close>: below 256 the upper-case code points are A to Z and the Latin-1
  capitals 192 to 222 without the multiplication sign 215; each has its lower-case
  form 32 places up.
\<close>

definition lower_char :: "char \<Rightarrow> char" where
  "lower_char c =
     (let n = of_char c :: nat
      in if (65 \<le> n \<and> n \<le> 90) \<or> (192 \<le> n \<and> n \<le> 222 \<and> n \<noteq> 215)
         then char_of (n + 32) else c)"

definition lower :: "string \<Rightarrow> string" where
  "lower s = map lower_char s"

text \<open>\<^verbatim>\<open>os.path.basename\<close> on a POSIX system: what follows the last slash.\<close>

definition basename :: "string \<Rightarrow> string" where
  "basename p = rev (takeWhile (\<lambda>c. c \<noteq> CHR ''/'') (rev p))"

text \<open>\<^verbatim>\<open>bytes.hex()\<close>: two lower-case hexadecimal digits for each byte.\<close>

definition hex_digit :: "nat \<Rightarrow> char" where
  "hex_digit n = ''0123456789abcdef'' ! n"

definition hex :: "byte list \<Rightarrow> string" where
  "hex bs = concat (map (\<lambda>b. [hex_digit (unat b div 16), hex_digit (unat b mod 16)]) bs)"

subsection \<open>The library parameters and the file system\<close>

record lib =
  sha1 :: "byte list \<Rightarrow> byte list"
  get_gcid_piece_size :: "nat \<Rightarrow> nat"
  DEFAULT_BUFFER_SIZE :: nat

text \<open>
  A file has its bytes, says whether it may be opened for reading and has, possibly, a
  fault: an offset from which every read raises \<^verbatim>\<open>OSError\<close>. A path with no file
  cannot be opened, nor its size be taken. The size of a file that is there can be
  taken whether or not the file may be opened.
\<close>

record regular_file =
  content :: "byte list"
  readable :: bool
  fault :: "nat option"

type_synonym filesystem = "string \<Rightarrow> regular_file option"

text \<open>
  The calls that reach the file system are recorded: each embedded function that can
  touch a file returns, with its result, the events it caused, in order.
\<close>

datatype io_event = Getsize string | Open string | Readinto string nat

definition getsize :: "filesystem \<Rightarrow> string \<Rightarrow> error + nat" where
  "getsize fs p = (case fs p of None \<Rightarrow> Inl OSError | Some f \<Rightarrow> Inr (length (content f)))"

text \<open>
  \<^verbatim>\<open>open(path, 'rb')\<close>: it raises \<^verbatim>\<open>OSError\<close> for a path with no file and for a file
  that may not be opened for reading.
\<close>

definition open_rb :: "filesystem \<Rightarrow> string \<Rightarrow> error + regular_file" where
  "open_rb fs p =
     (case fs p of
        None \<Rightarrow> Inl OSError
      | Some f \<Rightarrow> if readable f then Inr f else Inl OSError)"

text \<open>
  \<^verbatim>\<open>fp.readinto(buf)\<close> at offset \<open>pos\<close> with a buffer of \<open>n\<close> bytes: a buffered reader of
  a regular file fills the buffer unless the file ends first; the bytes read are
  returned in place of their number.
\<close>

definition readinto :: "regular_file \<Rightarrow> nat \<Rightarrow> nat \<Rightarrow> error + byte list" where
  "readinto f pos n =
     (if (case fault f of None \<Rightarrow> False | Some k \<Rightarrow> k \<le> pos) then Inl OSError
      else Inr (take n (drop pos (content f))))"

subsection \<open>\<^verbatim>\<open>TestContext\<close> and the hashers\<close>

record TestContext =
  path :: string
  hashs :: "string \<rightharpoonup> string"

definition TestContext_init :: "string \<Rightarrow> TestContext" where
  "TestContext_init p = \<lparr>path = p, hashs = Map.empty\<rparr>"

text \<open>
  A \<^verbatim>\<open>hashlib.sha1()\<close> object is the bytes it has been fed: \<^verbatim>\<open>update\<close> appends and
  \<^verbatim>\<open>digest\<close> is SHA-1 of the whole. A \<^verbatim>\<open>_GcidHasher\<close> holds one such object,
  \<^verbatim>\<open>__isha1\<close>.
\<close>

datatype hasher = Sha1Hasher "byte list" | GcidHasher "byte list"

fun hasher_name :: "hasher \<Rightarrow> string" where
  "hasher_name (Sha1Hasher _) = ''sha1''"
| "hasher_name (GcidHasher _) = ''gcid''"

fun hasher_update :: "lib \<Rightarrow> hasher \<Rightarrow> byte list \<Rightarrow> hasher" where
  "hasher_update lib (Sha1Hasher fed) buf = Sha1Hasher (fed @ buf)"
| "hasher_update lib (GcidHasher isha1) buf = GcidHasher (isha1 @ sha1 lib buf)"

fun hasher_digest :: "lib \<Rightarrow> hasher \<Rightarrow> byte list" where
  "hasher_digest lib (Sha1Hasher fed) = sha1 lib fed"
| "hasher_digest lib (GcidHasher isha1) = sha1 lib isha1"

subsection \<open>\<^verbatim>\<open>TestSet\<close> and its subclasses\<close>

datatype kind = NameTestSet | INameTestSet | Sha1TestSet | GcidTestSet

record TestSet =
  kind :: kind
  name :: string
  dataset :: "string set"
  adding_rows :: "string set"

definition TestSet_parpare_set :: "string list \<Rightarrow> string set" where
  "TestSet_parpare_set lines = set (map strip lines) - {''''}"

fun parpare_set :: "kind \<Rightarrow> string list \<Rightarrow> string set" where
  "parpare_set NameTestSet lines = TestSet_parpare_set lines"
| "parpare_set INameTestSet lines = lower ` TestSet_parpare_set lines"
| "parpare_set Sha1TestSet lines = lower ` TestSet_parpare_set lines"
| "parpare_set GcidTestSet lines = lower ` TestSet_parpare_set lines"

definition TestSet_init :: "kind \<Rightarrow> string \<Rightarrow> string list \<Rightarrow> TestSet" where
  "TestSet_init k n lines =
     \<lparr>kind = k, name = n, dataset = parpare_set k lines, adding_rows = {}\<rparr>"

definition all_rows :: "TestSet \<Rightarrow> string list" where
  "all_rows ts = sorted_list_of_set (dataset ts \<union> adding_rows ts)"

text \<open>\<^verbatim>\<open>ctx.hashs[key]\<close> raises \<^verbatim>\<open>KeyError\<close> for a key that is not there.\<close>

definition hashs_getitem :: "TestContext \<Rightarrow> string \<Rightarrow> error + string" where
  "hashs_getitem ctx key = (case hashs ctx key of None \<Rightarrow> Inl KeyError | Some v \<Rightarrow> Inr v)"

definition read_value :: "TestSet \<Rightarrow> TestContext \<Rightarrow> error + string" where
  "read_value ts ctx =
     (case kind ts of
        NameTestSet \<Rightarrow> Inr (basename (path ctx))
      | INameTestSet \<Rightarrow> Inr (lower (basename (path ctx)))
      | Sha1TestSet \<Rightarrow>
          (case hashs_getitem ctx ''sha1'' of Inl e \<Rightarrow> Inl e | Inr v \<Rightarrow> Inr (lower v))
      | GcidTestSet \<Rightarrow>
          (case hashs_getitem ctx ''gcid'' of Inl e \<Rightarrow> Inl e | Inr v \<Rightarrow> Inr (lower v)))"

definition TestSet_test :: "TestSet \<Rightarrow> TestContext \<Rightarrow> error + bool" where
  "TestSet_test ts ctx =
     (case read_value ts ctx of Inl e \<Rightarrow> Inl e | Inr v \<Rightarrow> Inr (v \<in> dataset ts))"

text \<open>
  \<^verbatim>\<open>add\<close> changes the object: the model returns the outcome of the call together with
  the object as the call leaves it.
\<close>

definition TestSet_add :: "TestSet \<Rightarrow> TestContext \<Rightarrow> (error + unit) \<times> TestSet" where
  "TestSet_add ts ctx =
     (case read_value ts ctx of
        Inl e \<Rightarrow> (Inl e, ts)
      | Inr v \<Rightarrow>
          (Inr (), if v \<notin> dataset ts then ts\<lparr>adding_rows := insert v (adding_rows ts)\<rparr> else ts))"

definition is_test_content :: "TestSet \<Rightarrow> bool" where
  "is_test_content ts = (case kind ts of Sha1TestSet \<Rightarrow> True | GcidTestSet \<Rightarrow> True | _ \<Rightarrow> False)"

definition get_buffer_size ::
  "lib \<Rightarrow> filesystem \<Rightarrow> TestSet \<Rightarrow> string \<Rightarrow> (error + nat option) \<times> io_event list" where
  "get_buffer_size lib fs ts p =
     (case kind ts of
        GcidTestSet \<Rightarrow>
          (case getsize fs p of
             Inl e \<Rightarrow> (Inl e, [Getsize p])
           | Inr n \<Rightarrow> (Inr (Some (get_gcid_piece_size lib n)), [Getsize p]))
      | _ \<Rightarrow> (Inr None, []))"

definition get_content_hasher :: "TestSet \<Rightarrow> error + hasher" where
  "get_content_hasher ts =
     (case kind ts of
        Sha1TestSet \<Rightarrow> Inr (Sha1Hasher [])
      | GcidTestSet \<Rightarrow> Inr (GcidHasher [])
      | _ \<Rightarrow> Inl NotImplementedError)"

subsection \<open>\<^verbatim>\<open>TestSets\<close>\<close>

text \<open>
  A \<^verbatim>\<open>TestSets\<close> object is its list \<^verbatim>\<open>__tests_sets\<close>. The two tuples that
  \<^verbatim>\<open>__init__\<close> builds hold the very objects of the list, selected by a property of
  their class, so at every moment they are the two filters of the list.
\<close>

definition metadata_tests_sets :: "TestSet list \<Rightarrow> TestSet list" where
  "metadata_tests_sets tests_sets = filter (\<lambda>ts. \<not> is_test_content ts) tests_sets"

definition content_tests_sets :: "TestSet list \<Rightarrow> TestSet list" where
  "content_tests_sets tests_sets = filter is_test_content tests_sets"

text \<open>
  The list \<^verbatim>\<open>buf_sizes\<close>: the buffer sizes of the sets, in order, without those that
  are \<^verbatim>\<open>None\<close> or zero (the filter \<^verbatim>\<open>if bz\<close>).
\<close>

fun buffer_sizes ::
  "lib \<Rightarrow> filesystem \<Rightarrow> TestSet list \<Rightarrow> string \<Rightarrow> (error + nat list) \<times> io_event list" where
  "buffer_sizes lib fs [] p = (Inr [], [])"
| "buffer_sizes lib fs (ts # tss) p =
     (case get_buffer_size lib fs ts p of
        (Inl e, l) \<Rightarrow> (Inl e, l)
      | (Inr bz, l) \<Rightarrow>
          (case buffer_sizes lib fs tss p of
             (Inl e, l') \<Rightarrow> (Inl e, l @ l')
           | (Inr bzs, l') \<Rightarrow>
               (Inr (case bz of None \<Rightarrow> bzs | Some n \<Rightarrow> if n = 0 then bzs else n # bzs),
                l @ l')))"

text \<open>The assertion on \<^verbatim>\<open>buf_sizes\<close> and the choice of \<^verbatim>\<open>buf_size\<close>.\<close>

definition choose_buf_size :: "lib \<Rightarrow> nat list \<Rightarrow> error + nat" where
  "choose_buf_size lib buf_sizes =
     (if buf_sizes \<noteq> [] then
        (if length buf_sizes = 1 then Inr (buf_sizes ! 0) else Inl AssertionError)
      else Inr (DEFAULT_BUFFER_SIZE lib))"

fun content_hashers :: "TestSet list \<Rightarrow> error + hasher list" where
  "content_hashers [] = Inr []"
| "content_hashers (ts # tss) =
     (case get_content_hasher ts of
        Inl e \<Rightarrow> Inl e
      | Inr h \<Rightarrow>
          (case content_hashers tss of Inl e \<Rightarrow> Inl e | Inr hs \<Rightarrow> Inr (h # hs)))"

text \<open>
  The loop \<^verbatim>\<open>while read_size := fp.readinto(buf)\<close>, from offset \<open>pos\<close>: every hasher
  is fed the bytes of each read, and the loop ends at the first read of no byte.
\<close>

function read_loop ::
  "lib \<Rightarrow> regular_file \<Rightarrow> string \<Rightarrow> nat \<Rightarrow> nat \<Rightarrow> hasher list \<Rightarrow> (error + hasher list) \<times> io_event list"
  where
  "read_loop lib f p buf_size pos hashers =
     (case readinto f pos buf_size of
        Inl e \<Rightarrow> (Inl e, [Readinto p buf_size])
      | Inr chunk \<Rightarrow>
          if length chunk = 0 then (Inr hashers, [Readinto p buf_size])
          else
            (case read_loop lib f p buf_size (pos + length chunk)
                    (map (\<lambda>h. hasher_update lib h chunk) hashers) of
               (r, l) \<Rightarrow> (r, Readinto p buf_size # l)))"
  by pat_completeness auto
termination
proof (relation "measure (\<lambda>(lib, f, p, buf_size, pos, hashers). length (content f) - pos)")
  show "wf (measure (\<lambda>(lib, f, p, buf_size, pos, hashers). length (content f) - pos))"
    by simp
next
  fix lib :: lib and f :: regular_file and p :: string and buf_size pos :: nat
    and hashers :: "hasher list" and chunk :: "byte list"
  assume r: "readinto f pos buf_size = Inr chunk" and n: "length chunk \<noteq> 0"
  from r have "chunk = take buf_size (drop pos (content f))"
    by (simp add: readinto_def split: if_splits)
  with n have "pos < length (content f)"
    by (cases "pos < length (content f)") simp_all
  moreover from n have "0 < length chunk"
    by simp
  ultimately have "length (content f) - (pos + length chunk) < length (content f) - pos"
    by arith
  then show "((lib, f, p, buf_size, pos + length chunk,
                 map (\<lambda>h. hasher_update lib h chunk) hashers),
                (lib, f, p, buf_size, pos, hashers))
               \<in> measure (\<lambda>(lib, f, p, buf_size, pos, hashers). length (content f) - pos)"
    by simp
qed

text \<open>The last loop of \<^verbatim>\<open>__context_fill_hashs\<close>: each hasher's digest goes under its name.\<close>

definition store_digests :: "lib \<Rightarrow> hasher list \<Rightarrow> TestContext \<Rightarrow> TestContext" where
  "store_digests lib hashers ctx =
     foldl (\<lambda>c h. c\<lparr>hashs := (hashs c)(hasher_name h \<mapsto> lower (hex (hasher_digest lib h)))\<rparr>)
       ctx hashers"

text \<open>
  \<^verbatim>\<open>__context_fill_hashs\<close>. It writes to the context only after the last statement that
  can raise, so a call that raises leaves the context as it was: the model returns the
  exception, or the context with the digests.
\<close>

definition context_fill_hashs ::
  "lib \<Rightarrow> filesystem \<Rightarrow> TestSet list \<Rightarrow> TestContext \<Rightarrow> (error + TestContext) \<times> io_event list"
  where
  "context_fill_hashs lib fs tests_sets ctx =
     (let tss = content_tests_sets tests_sets in
      if tss = [] then (Inr ctx, [])
      else
        (case buffer_sizes lib fs tss (path ctx) of
           (Inl e, l1) \<Rightarrow> (Inl e, l1)
         | (Inr buf_sizes, l1) \<Rightarrow>
             (case choose_buf_size lib buf_sizes of
                Inl e \<Rightarrow> (Inl e, l1)
              | Inr buf_size \<Rightarrow>
                  (case content_hashers tss of
                     Inl e \<Rightarrow> (Inl e, l1)
                   | Inr hashers \<Rightarrow>
                       (case open_rb fs (path ctx) of
                          Inl e \<Rightarrow> (Inl e, l1 @ [Open (path ctx)])
                        | Inr f \<Rightarrow>
                            (case read_loop lib f (path ctx) buf_size 0 hashers of
                               (Inl e, l2) \<Rightarrow> (Inl e, l1 @ Open (path ctx) # l2)
                             | (Inr hs, l2) \<Rightarrow>
                                 (Inr (store_digests lib hs ctx),
                                  l1 @ Open (path ctx) # l2)))))))"

text \<open>\<^verbatim>\<open>all(ts.test(ctx) for ts in tss)\<close>: it stops at the first set that fails.\<close>

fun all_test :: "TestSet list \<Rightarrow> TestContext \<Rightarrow> error + bool" where
  "all_test [] ctx = Inr True"
| "all_test (ts # tss) ctx =
     (case TestSet_test ts ctx of
        Inl e \<Rightarrow> Inl e
      | Inr b \<Rightarrow> if b then all_test tss ctx else Inr False)"

definition TestSets_test ::
  "lib \<Rightarrow> filesystem \<Rightarrow> TestSet list \<Rightarrow> string \<Rightarrow> (error + bool) \<times> io_event list" where
  "TestSets_test lib fs tests_sets p =
     (let ctx = TestContext_init p in
      if tests_sets = [] then (Inl AssertionError, [])
      else
        (case all_test (metadata_tests_sets tests_sets) ctx of
           Inl e \<Rightarrow> (Inl e, [])
         | Inr b \<Rightarrow>
             if \<not> b then (Inr False, [])
             else
               (case context_fill_hashs lib fs tests_sets ctx of
                  (Inl e, l) \<Rightarrow> (Inl e, l)
                | (Inr ctx', l) \<Rightarrow>
                    (case all_test (content_tests_sets tests_sets) ctx' of
                       Inl e \<Rightarrow> (Inl e, l)
                     | Inr b' \<Rightarrow> if \<not> b' then (Inr False, l) else (Inr True, l)))))"

text \<open>
  \<^verbatim>\<open>[ts.add(ctx) for ts in self.__tests_sets]\<close>: the sets are changed one after the
  other, and an exception leaves the earlier ones changed.
\<close>

fun add_each :: "TestSet list \<Rightarrow> TestContext \<Rightarrow> (error + unit) \<times> TestSet list" where
  "add_each [] ctx = (Inr (), [])"
| "add_each (ts # tss) ctx =
     (case TestSet_add ts ctx of
        (Inl e, ts') \<Rightarrow> (Inl e, ts' # tss)
      | (Inr u, ts') \<Rightarrow> (case add_each tss ctx of (r, tss') \<Rightarrow> (r, ts' # tss')))"

text \<open>
  \<^verbatim>\<open>TestSets.add\<close>: the outcome of the call, the sets as the call leaves them, and the
  file-system events.
\<close>

definition TestSets_add ::
  "lib \<Rightarrow> filesystem \<Rightarrow> TestSet list \<Rightarrow> string
     \<Rightarrow> (error + unit) \<times> TestSet list \<times> io_event list" where
  "TestSets_add lib fs tests_sets p =
     (let ctx = TestContext_init p in
      if tests_sets = [] then (Inl AssertionError, tests_sets, [])
      else
        (case context_fill_hashs lib fs tests_sets ctx of
           (Inl e, l) \<Rightarrow> (Inl e, tests_sets, l)
         | (Inr ctx', l) \<Rightarrow>
             (case add_each tests_sets ctx' of (r, tests_sets') \<Rightarrow> (r, tests_sets', l))))"

text \<open>A sequence of \<^verbatim>\<open>add\<close> calls on one set; a call that raises leaves the set as it was.\<close>

fun add_seq :: "TestSet \<Rightarrow> TestContext list \<Rightarrow> TestSet" where
  "add_seq ts [] = ts"
| "add_seq ts (ctx # ctxs) = add_seq (snd (TestSet_add ts ctx)) ctxs"

text \<open>
  A small instance of the parameters, on which the theorems are run: a two-byte stand-in
  for SHA-1, pieces of two bytes, a default buffer of four, and a file system with a
  file of five bytes, the same file behind a device that fails from offset two, an
  empty file, and a file of five bytes that may not be opened.
\<close>

definition example_sha1 :: "byte list \<Rightarrow> byte list" where
  "example_sha1 bs = [sum_list bs, of_nat (length bs)]"

definition example_lib :: lib where
  "example_lib =
     \<lparr>sha1 = example_sha1, get_gcid_piece_size = (\<lambda>n. 2), DEFAULT_BUFFER_SIZE = 4\<rparr>"

definition example_fs :: filesystem where
  "example_fs p =
     (if p = ''/tmp/abc.txt'' then
        Some \<lparr>content = [1, 2, 3, 4, 5], readable = True, fault = None\<rparr>
      else if p = ''/tmp/bad.bin'' then
        Some \<lparr>content = [1, 2, 3, 4, 5], readable = True, fault = Some 2\<rparr>
      else if p = ''/tmp/empty'' then
        Some \<lparr>content = [], readable = True, fault = None\<rparr>
      else if p = ''/tmp/locked'' then
        Some \<lparr>content = [1, 2, 3, 4, 5], readable = False, fault = None\<rparr>
      else None)"

text \<open>The buffer lengths of the \<^verbatim>\<open>readinto\<close> calls among some events, in order.\<close>

fun read_sizes :: "io_event list \<Rightarrow> nat list" where
  "read_sizes [] = []"
| "read_sizes (Readinto p n # l) = n # read_sizes l"
| "read_sizes (Getsize p # l) = read_sizes l"
| "read_sizes (Open p # l) = read_sizes l"

subsection \<open>The chunked digest as the specification words it\<close>

text \<open>
  These two definitions are not taken from the code: they follow section 4.3 of the
  specification, and the code is compared with them. Step 2: the file is cut into
  consecutive pieces of \<open>P\<close> bytes, the last one holding what remains; the file of no
  byte has no piece. Steps 3 to 5: SHA-1 of the concatenation of the SHA-1 digests of
  the pieces, in file order.
\<close>

function spec_pieces :: "nat \<Rightarrow> 'a list \<Rightarrow> 'a list list" where
  "spec_pieces P xs = (if P = 0 \<or> xs = [] then [] else take P xs # spec_pieces P (drop P xs))"
  by pat_completeness auto
termination
  by (relation "measure (\<lambda>(P, xs). length xs)") auto

definition spec_gcid :: "lib \<Rightarrow> byte list list \<Rightarrow> byte list" where
  "spec_gcid lib ps = sha1 lib (concat (map (sha1 lib) ps))"

declare read_loop.simps [simp del]

declare spec_pieces.simps [simp del]

section \<open>Properties\<close>

subsection \<open>Strings\<close>

lemma lower_char_idem: "lower_char (lower_char c) = lower_char c"
  unfolding lower_char_def Let_def by auto

lemma isspace_lower_char: "isspace (lower_char c) = isspace c"
  unfolding lower_char_def Let_def isspace_def by auto

lemma lower_idem: "lower (lower s) = lower s"
  by (simp add: lower_def lower_char_idem)

lemma lower_Nil_iff: "lower s = [] \<longleftrightarrow> s = []"
  by (simp add: lower_def)

lemma dropWhile_isspace_lower: "dropWhile isspace (lower s) = lower (dropWhile isspace s)"
  by (induction s) (simp_all add: lower_def isspace_lower_char)

lemma rev_lower: "rev (lower s) = lower (rev s)"
  by (simp add: lower_def rev_map)

lemma strip_lower: "strip (lower s) = lower (strip s)"
  by (simp add: strip_def dropWhile_isspace_lower rev_lower)

lemma strip_ends:
  assumes "strip s \<noteq> []"
  shows "\<not> isspace (hd (strip s))" and "\<not> isspace (last (strip s))"
proof -
  define u where "u = dropWhile isspace s"
  define w where "w = dropWhile isspace (rev u)"
  have s: "strip s = rev w"
    by (simp add: strip_def u_def w_def)
  with assms have w: "w \<noteq> []"
    by simp
  then have "\<not> isspace (hd w)"
    unfolding w_def by (rule hd_dropWhile)
  with w show "\<not> isspace (last (strip s))"
    by (simp add: s last_rev)
  from w have u: "u \<noteq> []"
    by (auto simp: w_def)
  then have nu: "\<not> isspace (hd u)"
    unfolding u_def by (rule hd_dropWhile)
  obtain a b where ab: "rev u = a @ w" 
    unfolding w_def by (metis takeWhile_dropWhile_id)
  with w have "last w = last (rev u)"
    by simp
  also have "\<dots> = hd u"
    using u by (simp add: last_rev)
  finally show "\<not> isspace (hd (strip s))"
    using nu w by (simp add: s hd_rev)
qed

lemma TestSet_parpare_set_lower:
  "TestSet_parpare_set (map lower lines) = lower ` TestSet_parpare_set lines"
proof -
  have "TestSet_parpare_set (map lower lines) = (\<lambda>l. lower (strip l)) ` set lines - {[]}"
    by (simp add: TestSet_parpare_set_def strip_lower image_image)
  also have "\<dots> = lower ` (strip ` set lines - {[]})"
    by (auto simp: lower_Nil_iff)
  finally show ?thesis
    by (simp add: TestSet_parpare_set_def)
qed

lemma parpare_set_lower:
  assumes "k \<noteq> NameTestSet"
  shows "parpare_set k (map lower lines) = parpare_set k lines"
proof -
  have "lower ` TestSet_parpare_set (map lower lines) = lower ` TestSet_parpare_set lines"
    by (simp add: TestSet_parpare_set_lower image_image lower_idem)
  with assms show ?thesis
    by (cases k) simp_all
qed

subsection \<open>One pattern set\<close>

lemma finite_parpare_set: "finite (parpare_set k lines)"
  by (cases k) (simp_all add: TestSet_parpare_set_def)

lemma TestSet_add_fields:
  "kind (snd (TestSet_add ts ctx)) = kind ts"
  "name (snd (TestSet_add ts ctx)) = name ts"
  "dataset (snd (TestSet_add ts ctx)) = dataset ts"
  by (simp_all add: TestSet_add_def split: sum.splits)

lemma TestSet_add_adding_rows:
  "adding_rows (snd (TestSet_add ts ctx)) =
     (case read_value ts ctx of
        Inl e \<Rightarrow> adding_rows ts
      | Inr v \<Rightarrow> if v \<in> dataset ts then adding_rows ts else insert v (adding_rows ts))"
  by (simp add: TestSet_add_def split: sum.splits)

lemma add_seq_dataset: "dataset (add_seq ts ctxs) = dataset ts"
  by (induction ctxs arbitrary: ts) (simp_all add: TestSet_add_fields)

lemma add_seq_finite:
  "finite (adding_rows ts) \<Longrightarrow> finite (adding_rows (add_seq ts ctxs))"
proof (induction ctxs arbitrary: ts)
  case Nil
  then show ?case by simp
next
  case (Cons ctx ctxs)
  from Cons.prems have "finite (adding_rows (snd (TestSet_add ts ctx)))"
    by (simp add: TestSet_add_adding_rows split: sum.splits)
  then show ?case
    by (simp add: Cons.IH)
qed

lemma add_seq_disjoint:
  "dataset ts \<inter> adding_rows ts = {} \<Longrightarrow>
   dataset (add_seq ts ctxs) \<inter> adding_rows (add_seq ts ctxs) = {}"
proof (induction ctxs arbitrary: ts)
  case Nil
  then show ?case by simp
next
  case (Cons ctx ctxs)
  let ?u = "snd (TestSet_add ts ctx)"
  from Cons.prems have "dataset ?u \<inter> adding_rows ?u = {}"
    by (simp add: TestSet_add_fields TestSet_add_adding_rows split: sum.splits)
  then show ?case
    by (simp add: Cons.IH)
qed

text \<open>
  Claim C5. Whatever the lines a set is built from and whatever the sequence of
  \<^verbatim>\<open>add\<close> calls made on it, no value is in both \<^verbatim>\<open>_dataset\<close> and \<^verbatim>\<open>_adding_rows\<close>,
  and \<^verbatim>\<open>all_rows()\<close> lists exactly the values of the two sets, in increasing order and
  each once.
\<close>

theorem all_rows_sorted_union:
  "dataset (add_seq (TestSet_init k n lines) ctxs) \<inter>
     adding_rows (add_seq (TestSet_init k n lines) ctxs) = {} \<and>
   set (all_rows (add_seq (TestSet_init k n lines) ctxs)) =
     dataset (add_seq (TestSet_init k n lines) ctxs) \<union>
     adding_rows (add_seq (TestSet_init k n lines) ctxs) \<and>
   sorted (all_rows (add_seq (TestSet_init k n lines) ctxs)) \<and>
   distinct (all_rows (add_seq (TestSet_init k n lines) ctxs))"
proof -
  let ?init = "TestSet_init k n lines"
  let ?fin = "add_seq ?init ctxs"
  have "finite (dataset ?fin)"
    by (simp add: add_seq_dataset) (simp add: TestSet_init_def finite_parpare_set)
  moreover have "finite (adding_rows ?fin)"
    by (rule add_seq_finite) (simp add: TestSet_init_def)
  ultimately have fin: "finite (dataset ?fin \<union> adding_rows ?fin)"
    by simp
  have "dataset ?fin \<inter> adding_rows ?fin = {}"
    by (rule add_seq_disjoint) (simp add: TestSet_init_def)
  moreover from fin have "set (all_rows ?fin) = dataset ?fin \<union> adding_rows ?fin"
    by (simp add: all_rows_def)
  moreover from fin have "sorted (all_rows ?fin)"
    by (simp add: all_rows_def)
  moreover from fin have "distinct (all_rows ?fin)"
    by (simp add: all_rows_def)
  ultimately show ?thesis
    by simp
qed

lemma dataset_TestSet_init: "dataset (TestSet_init k n lines) = parpare_set k lines"
  by (simp add: TestSet_init_def)

lemma TestSet_parpare_set_eq:
  "TestSet_parpare_set lines = {strip l |l. l \<in> set lines \<and> strip l \<noteq> []}"
  by (auto simp: TestSet_parpare_set_def)

lemma lower_TestSet_parpare_set_eq:
  "lower ` TestSet_parpare_set lines = {lower (strip l) |l. l \<in> set lines \<and> strip l \<noteq> []}"
  by (auto simp: TestSet_parpare_set_def)

lemma mem_lower_TestSet_parpare_set:
  "(x \<in> lower ` TestSet_parpare_set lines) =
     (\<exists>l \<in> set lines. strip l \<noteq> [] \<and> lower (strip l) = x)"
  by (auto simp: TestSet_parpare_set_def)

lemma kind_TestSet_init: "kind (TestSet_init k n lines) = k"
  by (simp add: TestSet_init_def)

lemma parpare_set_trimmed:
  assumes "v \<in> parpare_set k lines"
  shows "v \<noteq> [] \<and> \<not> isspace (hd v) \<and> \<not> isspace (last v)"
proof -
  have base: "u \<noteq> [] \<and> \<not> isspace (hd u) \<and> \<not> isspace (last u)"
    if "u \<in> TestSet_parpare_set lines" for u
  proof -
    from that obtain l where "u = strip l" and "strip l \<noteq> []"
      by (auto simp: TestSet_parpare_set_def)
    then show ?thesis
      using strip_ends [of l] by simp
  qed
  have low: "lower u \<noteq> [] \<and> \<not> isspace (hd (lower u)) \<and> \<not> isspace (last (lower u))"
    if "u \<in> TestSet_parpare_set lines" for u
    using base [OF that]
    by (simp add: lower_def hd_map last_map isspace_lower_char)
  from assms show ?thesis
    by (cases k) (auto simp: base low)
qed

text \<open>
  Claim C6. For every list of seed lines, the accepted set of a \<^verbatim>\<open>NameTestSet\<close> is the
  set of the stripped lines that are not empty, and that of the three other variants is
  the set of their lower-case forms; no accepted value is empty or begins or ends with
  white space. The case-insensitive name variant reads the lower-cased base name, so
  its test holds exactly when some seed equals the base name up to letter case. The
  lines \<^verbatim>\<open>"abc.txt"\<close>, \<^verbatim>\<open>""\<close>, \<^verbatim>\<open>"  def.txt  "\<close> give the accepted set of
  \<^verbatim>\<open>"abc.txt"\<close> and \<^verbatim>\<open>"def.txt"\<close>.
\<close>

theorem seed_normalisation:
  "dataset (TestSet_init NameTestSet n lines) =
     {strip l |l. l \<in> set lines \<and> strip l \<noteq> []} \<and>
   dataset (TestSet_init INameTestSet n lines) =
     {lower (strip l) |l. l \<in> set lines \<and> strip l \<noteq> []} \<and>
   dataset (TestSet_init Sha1TestSet n lines) =
     {lower (strip l) |l. l \<in> set lines \<and> strip l \<noteq> []} \<and>
   dataset (TestSet_init GcidTestSet n lines) =
     {lower (strip l) |l. l \<in> set lines \<and> strip l \<noteq> []} \<and>
   (\<forall>v \<in> dataset (TestSet_init k n lines).
      v \<noteq> [] \<and> \<not> isspace (hd v) \<and> \<not> isspace (last v)) \<and>
   read_value (TestSet_init INameTestSet n lines) ctx = Inr (lower (basename (path ctx))) \<and>
   TestSet_test (TestSet_init INameTestSet n lines) ctx =
     Inr (\<exists>l \<in> set lines. strip l \<noteq> [] \<and> lower (strip l) = lower (basename (path ctx))) \<and>
   dataset (TestSet_init k n [''abc.txt'', [], ''  def.txt  '']) = {''abc.txt'', ''def.txt''}"
proof -
  have d1: "dataset (TestSet_init NameTestSet n lines) =
      {strip l |l. l \<in> set lines \<and> strip l \<noteq> []}"
    by (simp add: dataset_TestSet_init TestSet_parpare_set_eq)
  have d2: "dataset (TestSet_init INameTestSet n lines) =
      {lower (strip l) |l. l \<in> set lines \<and> strip l \<noteq> []}"
    by (simp add: dataset_TestSet_init lower_TestSet_parpare_set_eq)
  have d3: "dataset (TestSet_init Sha1TestSet n lines) =
      {lower (strip l) |l. l \<in> set lines \<and> strip l \<noteq> []}"
    by (simp add: dataset_TestSet_init lower_TestSet_parpare_set_eq)
  have d4: "dataset (TestSet_init GcidTestSet n lines) =
      {lower (strip l) |l. l \<in> set lines \<and> strip l \<noteq> []}"
    by (simp add: dataset_TestSet_init lower_TestSet_parpare_set_eq)
  have ex: "dataset (TestSet_init k n [''abc.txt'', [], ''  def.txt  '']) =
      {''abc.txt'', ''def.txt''}"
    by (cases k)
      (simp_all add: TestSet_init_def TestSet_parpare_set_def strip_def isspace_def
        lower_def lower_char_def insert_Diff_if)
  have rv: "read_value (TestSet_init INameTestSet n lines) ctx = Inr (lower (basename (path ctx)))"
    by (simp add: read_value_def TestSet_init_def)
  have "TestSet_test (TestSet_init INameTestSet n lines) ctx =
      Inr (lower (basename (path ctx)) \<in> lower ` TestSet_parpare_set lines)"
    by (simp add: TestSet_test_def rv dataset_TestSet_init)
  also have "(lower (basename (path ctx)) \<in> lower ` TestSet_parpare_set lines) =
      (\<exists>l \<in> set lines. strip l \<noteq> [] \<and> lower (strip l) = lower (basename (path ctx)))"
    by (rule mem_lower_TestSet_parpare_set)
  finally have tst: "TestSet_test (TestSet_init INameTestSet n lines) ctx =
      Inr (\<exists>l \<in> set lines. strip l \<noteq> [] \<and> lower (strip l) = lower (basename (path ctx)))" .
  have trimmed: "\<forall>v \<in> dataset (TestSet_init k n lines).
      v \<noteq> [] \<and> \<not> isspace (hd v) \<and> \<not> isspace (last v)"
    using parpare_set_trimmed [of _ k lines] by (simp add: dataset_TestSet_init)
  from d1 d2 d3 d4 trimmed rv tst ex show ?thesis
    by (intro conjI)
qed

theorem seed_normalisation_witness:
  "''def.txt'' \<in> dataset (TestSet_init INameTestSet ''iname.txt'' [''ABC.txt'', [], ''  Def.TXT  '']) \<and>
   \<not> isspace (hd ''def.txt'') \<and> \<not> isspace (last ''def.txt'') \<and>
   TestSet_test (TestSet_init INameTestSet ''iname.txt'' [''ABC.txt'', [], ''  Def.TXT  ''])
     (TestContext_init ''/tmp/DEF.txt'') = Inr True"
proof -
  let ?lines = "[''ABC.txt'', [], ''  Def.TXT  '']"
  let ?ts = "TestSet_init INameTestSet ''iname.txt'' ?lines"
  note sn = seed_normalisation [of "''iname.txt''" ?lines INameTestSet "TestContext_init ''/tmp/DEF.txt''"]
  have m: "''def.txt'' \<in> dataset ?ts"
    by code_simp
  have e: "\<exists>l \<in> set ?lines. strip l \<noteq> [] \<and>
      lower (strip l) = lower (basename (path (TestContext_init ''/tmp/DEF.txt'')))"
    by code_simp
  from sn have "\<forall>v \<in> dataset ?ts. v \<noteq> [] \<and> \<not> isspace (hd v) \<and> \<not> isspace (last v)"
    by (elim conjE)
  then have "''def.txt'' \<noteq> [] \<and> \<not> isspace (hd ''def.txt'') \<and> \<not> isspace (last ''def.txt'')"
    using m by (rule bspec)
  moreover from sn have "TestSet_test ?ts (TestContext_init ''/tmp/DEF.txt'') =
      Inr (\<exists>l \<in> set ?lines. strip l \<noteq> [] \<and>
        lower (strip l) = lower (basename (path (TestContext_init ''/tmp/DEF.txt''))))"
    by (elim conjE)
  with e have "TestSet_test ?ts (TestContext_init ''/tmp/DEF.txt'') = Inr True"
    by (simp only: )
  ultimately show ?thesis
    using m by (intro conjI) (elim conjE, assumption)+
qed

text \<open>
  Claim C10. For a \<^verbatim>\<open>Sha1TestSet\<close> or a \<^verbatim>\<open>GcidTestSet\<close>, two lists of seed lines that
  differ in letter case only give the same set, hence the same answer of
  \<^verbatim>\<open>TestSets.test\<close> on every file, whatever the other sets; and the test of such a set
  compares the lower-cased seeds with the lower-cased digest of the context.
\<close>

theorem digest_seed_case_insensitive:
  assumes "k = Sha1TestSet \<or> k = GcidTestSet"
    and "map lower lines' = map lower lines"
  shows "TestSets_test lib fs (pre @ TestSet_init k n lines' # post) p =
           TestSets_test lib fs (pre @ TestSet_init k n lines # post) p \<and>
         TestSet_test (TestSet_init k n lines) ctx =
           (case hashs ctx (if k = Sha1TestSet then ''sha1'' else ''gcid'') of
              None \<Rightarrow> Inl KeyError
            | Some d \<Rightarrow> Inr (\<exists>l \<in> set lines. strip l \<noteq> [] \<and> lower (strip l) = lower d))"
proof -
  from assms(1) have k: "k \<noteq> NameTestSet"
    by auto
  have "parpare_set k lines' = parpare_set k (map lower lines')"
    using k by (simp add: parpare_set_lower)
  also have "\<dots> = parpare_set k lines"
    using k by (simp add: assms(2) parpare_set_lower)
  finally have "TestSet_init k n lines' = TestSet_init k n lines"
    by (simp add: TestSet_init_def)
  moreover have "TestSet_test (TestSet_init k n lines) ctx =
           (case hashs ctx (if k = Sha1TestSet then ''sha1'' else ''gcid'') of
              None \<Rightarrow> Inl KeyError
            | Some d \<Rightarrow> Inr (\<exists>l \<in> set lines. strip l \<noteq> [] \<and> lower (strip l) = lower d))"
    using assms(1)
    by (auto simp: TestSet_test_def read_value_def hashs_getitem_def dataset_TestSet_init
        kind_TestSet_init mem_lower_TestSet_parpare_set split: option.splits)
  ultimately show ?thesis
    by simp
qed

theorem digest_seed_case_insensitive_witness:
  "TestSets_test example_lib example_fs
     [TestSet_init Sha1TestSet ''sha1.txt'' [''0F05'']] ''/tmp/abc.txt'' =
     (Inr True, [Open ''/tmp/abc.txt'', Readinto ''/tmp/abc.txt'' 4,
        Readinto ''/tmp/abc.txt'' 4, Readinto ''/tmp/abc.txt'' 4]) \<and>
   TestSets_test example_lib example_fs
     [TestSet_init Sha1TestSet ''sha1.txt'' [''0f05'']] ''/tmp/abc.txt'' =
     (Inr True, [Open ''/tmp/abc.txt'', Readinto ''/tmp/abc.txt'' 4,
        Readinto ''/tmp/abc.txt'' 4, Readinto ''/tmp/abc.txt'' 4])"
proof -
  have k: "Sha1TestSet = Sha1TestSet \<or> Sha1TestSet = GcidTestSet"
    by simp
  have l: "map lower [''0F05''] = map lower [''0f05'']"
    by code_simp
  have t: "TestSets_test example_lib example_fs
      ([] @ TestSet_init Sha1TestSet ''sha1.txt'' [''0f05''] # []) ''/tmp/abc.txt'' =
     (Inr True, [Open ''/tmp/abc.txt'', Readinto ''/tmp/abc.txt'' 4,
        Readinto ''/tmp/abc.txt'' 4, Readinto ''/tmp/abc.txt'' 4])"
    by code_simp
  from digest_seed_case_insensitive [OF k l, of example_lib example_fs "[]" "''sha1.txt''" "[]" "''/tmp/abc.txt''"] t
  show ?thesis
    by simp
qed

subsection \<open>The evaluator\<close>

lemma read_value_metadata:
  assumes "\<not> is_test_content ts"
  shows "\<exists>v. read_value ts ctx = Inr v"
    and "path ctx' = path ctx \<Longrightarrow> read_value ts ctx' = read_value ts ctx"
  using assms by (cases "kind ts"; simp add: is_test_content_def read_value_def)+

lemma TestSet_test_metadata:
  assumes "\<not> is_test_content ts"
  shows "\<exists>b. TestSet_test ts ctx = Inr b"
    and "path ctx' = path ctx \<Longrightarrow> TestSet_test ts ctx' = TestSet_test ts ctx"
proof -
  from read_value_metadata(1) [OF assms] obtain v where "read_value ts ctx = Inr v"
    by blast
  then show "\<exists>b. TestSet_test ts ctx = Inr b"
    by (simp add: TestSet_test_def)
  show "TestSet_test ts ctx' = TestSet_test ts ctx" if "path ctx' = path ctx"
    using read_value_metadata(2) [OF assms that] by (simp add: TestSet_test_def)
qed

lemma all_test_total:
  "(\<And>ts. ts \<in> set tss \<Longrightarrow> \<exists>b. TestSet_test ts ctx = Inr b) \<Longrightarrow>
   all_test tss ctx = Inr (\<forall>ts \<in> set tss. TestSet_test ts ctx = Inr True)"
proof (induction tss)
  case Nil
  show ?case by simp
next
  case (Cons ts tss)
  from Cons.prems [of ts] obtain b where b: "TestSet_test ts ctx = Inr b"
    by auto
  have "all_test tss ctx = Inr (\<forall>ts \<in> set tss. TestSet_test ts ctx = Inr True)"
    by (rule Cons.IH) (simp add: Cons.prems)
  with b show ?case
    by simp
qed

lemma all_test_metadata:
  "all_test (metadata_tests_sets tss) ctx =
     Inr (\<forall>ts \<in> set (metadata_tests_sets tss). TestSet_test ts ctx = Inr True)"
  by (rule all_test_total) (simp add: metadata_tests_sets_def TestSet_test_metadata(1))

lemma read_value_content:
  assumes "get_content_hasher ts = Inr h"
  shows "read_value ts ctx =
    (case hashs ctx (hasher_name h) of None \<Rightarrow> Inl KeyError | Some v \<Rightarrow> Inr (lower v))"
  using assms
  by (cases "kind ts")
    (auto simp: get_content_hasher_def read_value_def hashs_getitem_def split: option.splits)

lemma get_content_hasher_content:
  "is_test_content ts \<Longrightarrow> \<exists>h. get_content_hasher ts = Inr h"
  by (cases "kind ts") (simp_all add: is_test_content_def get_content_hasher_def)

lemma content_hashers_Inr:
  "content_hashers tss = Inr hs \<Longrightarrow> list_all2 (\<lambda>ts h. get_content_hasher ts = Inr h) tss hs"
  by (induction tss arbitrary: hs) (auto split: sum.splits)

lemma content_hashers_content:
  "\<exists>hs. content_hashers (content_tests_sets tss) = Inr hs"
proof (induction tss)
  case Nil
  show ?case by (simp add: content_tests_sets_def)
next
  case (Cons ts tss)
  then obtain hs where hs: "content_hashers (content_tests_sets tss) = Inr hs"
    by blast
  show ?case
  proof (cases "is_test_content ts")
    case True
    with get_content_hasher_content obtain h where "get_content_hasher ts = Inr h"
      by blast
    with True hs show ?thesis
      by (simp add: content_tests_sets_def)
  next
    case False
    with hs show ?thesis
      by (simp add: content_tests_sets_def)
  qed
qed

lemma hasher_name_update: "hasher_name (hasher_update lib h buf) = hasher_name h"
  by (cases h) simp_all

lemma read_loop_names:
  "fst (read_loop lib f p buf_size pos hashers) = Inr hs \<Longrightarrow>
   map hasher_name hs = map hasher_name hashers"
proof (induction lib f p buf_size pos hashers rule: read_loop.induct)
  case (1 lib f p buf_size pos hashers)
  show ?case
  proof (cases "readinto f pos buf_size")
    case (Inl e)
    with "1.prems" show ?thesis
      by (simp add: read_loop.simps [of lib f p buf_size pos hashers])
  next
    case (Inr chunk)
    show ?thesis
    proof (cases "length chunk = 0")
      case True
      with Inr "1.prems" show ?thesis
        by (simp add: read_loop.simps [of lib f p buf_size pos hashers])
    next
      case False
      let ?hs = "map (\<lambda>h. hasher_update lib h chunk) hashers"
      from Inr False "1.prems"
      have "fst (read_loop lib f p buf_size (pos + length chunk) ?hs) = Inr hs"
        by (simp add: read_loop.simps [of lib f p buf_size pos hashers] split: prod.splits)
      with "1.IH" [OF Inr False] have "map hasher_name hs = map hasher_name ?hs"
        by simp
      then show ?thesis
        by (simp add: hasher_name_update comp_def)
    qed
  qed
qed

lemma store_digests_path: "path (store_digests lib hs ctx) = path ctx"
  unfolding store_digests_def by (induction hs arbitrary: ctx) simp_all

lemma store_digests_dom:
  "dom (hashs (store_digests lib hs ctx)) = dom (hashs ctx) \<union> hasher_name ` set hs"
  unfolding store_digests_def by (induction hs arbitrary: ctx) auto

lemma open_rb_Inr: "open_rb fs p = Inr f \<longleftrightarrow> fs p = Some f \<and> readable f"
  by (auto simp: open_rb_def split: option.splits)

lemma open_rb_Inl: "open_rb fs p = Inl e \<Longrightarrow> e = OSError"
  by (simp add: open_rb_def split: option.splits if_splits)

lemma context_fill_hashs_Inr:
  assumes "fst (context_fill_hashs lib fs tss ctx) = Inr ctx'"
  obtains "content_tests_sets tss = []" and "ctx' = ctx"
  | bzs buf_size hs0 f hs where
      "content_tests_sets tss \<noteq> []"
      "fst (buffer_sizes lib fs (content_tests_sets tss) (path ctx)) = Inr bzs"
      "choose_buf_size lib bzs = Inr buf_size"
      "content_hashers (content_tests_sets tss) = Inr hs0"
      "fs (path ctx) = Some f"
      "fst (read_loop lib f (path ctx) buf_size 0 hs0) = Inr hs"
      "ctx' = store_digests lib hs ctx"
      "readable f"
proof (cases "content_tests_sets tss = []")
  case True
  with assms have "ctx' = ctx"
    by (simp add: context_fill_hashs_def)
  with True that(1) show ?thesis
    by simp
next
  case False
  let ?cts = "content_tests_sets tss"
  obtain r1 l1 where b: "buffer_sizes lib fs ?cts (path ctx) = (r1, l1)"
    by (cases "buffer_sizes lib fs ?cts (path ctx)")
  from assms False b obtain bzs where r1: "r1 = Inr bzs"
    by (cases r1) (simp_all add: context_fill_hashs_def)
  from assms False b r1 obtain buf_size where c: "choose_buf_size lib bzs = Inr buf_size"
    by (cases "choose_buf_size lib bzs") (simp_all add: context_fill_hashs_def)
  from assms False b r1 c obtain hs0 where h: "content_hashers ?cts = Inr hs0"
    by (cases "content_hashers ?cts") (simp_all add: context_fill_hashs_def)
  from assms False b r1 c h obtain f where o: "open_rb fs (path ctx) = Inr f"
    by (cases "open_rb fs (path ctx)") (simp_all add: context_fill_hashs_def)
  then have f: "fs (path ctx) = Some f" and rd: "readable f"
    by (simp_all add: open_rb_Inr)
  obtain r2 l2 where r: "read_loop lib f (path ctx) buf_size 0 hs0 = (r2, l2)"
    by (cases "read_loop lib f (path ctx) buf_size 0 hs0")
  from assms False b r1 c h o r obtain hs where r2: "r2 = Inr hs"
    by (cases r2) (simp_all add: context_fill_hashs_def)
  from assms False b r1 c h o r r2 have "ctx' = store_digests lib hs ctx"
    by (simp add: context_fill_hashs_def)
  with False b r1 c h f rd r r2 that(2) show ?thesis
    by simp
qed

lemma context_fill_hashs_path:
  "fst (context_fill_hashs lib fs tss ctx) = Inr ctx' \<Longrightarrow> path ctx' = path ctx"
  by (erule context_fill_hashs_Inr) (simp_all add: store_digests_path)

lemma context_fill_hashs_keys:
  assumes "fst (context_fill_hashs lib fs tss ctx) = Inr ctx'"
    and "ts \<in> set tss" and "get_content_hasher ts = Inr h"
  shows "hasher_name h \<in> dom (hashs ctx')"
proof -
  from assms(3) have c: "is_test_content ts"
    by (cases "kind ts") (simp_all add: get_content_hasher_def is_test_content_def)
  with assms(2) have mem: "ts \<in> set (content_tests_sets tss)"
    by (simp add: content_tests_sets_def)
  from assms(1) show ?thesis
  proof (cases rule: context_fill_hashs_Inr)
    case 1
    with mem show ?thesis
      by simp
  next
    case (2 bzs buf_size hs0 f hs)
    from mem obtain i where i: "i < length (content_tests_sets tss)"
      and ti: "content_tests_sets tss ! i = ts"
      by (auto simp: in_set_conv_nth)
    from content_hashers_Inr [OF 2(4)] i ti
    have "i < length hs0" and "get_content_hasher ts = Inr (hs0 ! i)"
      by (auto simp: list_all2_conv_all_nth)
    then obtain h0 where "h0 \<in> set hs0" and "get_content_hasher ts = Inr h0"
      by (auto simp: in_set_conv_nth)
    with assms(3) have "hasher_name h \<in> hasher_name ` set hs0"
      by auto
    also have "hasher_name ` set hs0 = set (map hasher_name hs0)"
      by simp
    also have "\<dots> = set (map hasher_name hs)"
      using read_loop_names [OF 2(6)] by simp
    finally show ?thesis
      by (simp add: 2(7) store_digests_dom)
  qed
qed

lemma context_fill_hashs_read_value:
  assumes "fst (context_fill_hashs lib fs tss ctx) = Inr ctx'" and "ts \<in> set tss"
  shows "\<exists>v. read_value ts ctx' = Inr v"
proof (cases "is_test_content ts")
  case True
  then obtain h where h: "get_content_hasher ts = Inr h"
    using get_content_hasher_content by blast
  from context_fill_hashs_keys [OF assms h] obtain d where "hashs ctx' (hasher_name h) = Some d"
    by auto
  then show ?thesis
    by (simp add: read_value_content [OF h])
next
  case False
  then show ?thesis
    by (rule read_value_metadata(1))
qed

lemma TestSet_test_Inr: "read_value ts ctx = Inr v \<Longrightarrow> \<exists>b. TestSet_test ts ctx = Inr b"
  by (simp add: TestSet_test_def)

lemma TestSet_add_Inr: "read_value ts ctx = Inr v \<Longrightarrow> fst (TestSet_add ts ctx) = Inr ()"
  by (simp add: TestSet_add_def)

lemma add_each_Inr:
  "(\<And>ts. ts \<in> set tss \<Longrightarrow> \<exists>v. read_value ts ctx = Inr v) \<Longrightarrow> fst (add_each tss ctx) = Inr ()"
proof (induction tss)
  case Nil
  show ?case by simp
next
  case (Cons ts tss)
  from Cons.prems [of ts] obtain v where "read_value ts ctx = Inr v"
    by auto
  then have "fst (TestSet_add ts ctx) = Inr ()"
    by (rule TestSet_add_Inr)
  moreover have "fst (add_each tss ctx) = Inr ()"
    by (rule Cons.IH) (simp add: Cons.prems)
  ultimately show ?case
    by (cases "TestSet_add ts ctx"; cases "add_each tss ctx") simp
qed

lemma TestSets_test_after_fill:
  assumes "tss \<noteq> []" and "fst (context_fill_hashs lib fs tss (TestContext_init p)) = Inr ctx'"
  shows "fst (TestSets_test lib fs tss p) = Inr (\<forall>ts \<in> set tss. TestSet_test ts ctx' = Inr True)"
proof -
  let ?ctx = "TestContext_init p"
  have p: "path ctx' = path ?ctx"
    using assms(2) by (rule context_fill_hashs_path)
  have "(\<forall>ts \<in> set (metadata_tests_sets tss). TestSet_test ts ?ctx = Inr True) =
      (\<forall>ts \<in> set (metadata_tests_sets tss). TestSet_test ts ctx' = Inr True)"
    by (intro ball_cong refl)
      (simp add: metadata_tests_sets_def TestSet_test_metadata(2) [OF _ p])
  then have m: "all_test (metadata_tests_sets tss) ?ctx =
      Inr (\<forall>ts \<in> set (metadata_tests_sets tss). TestSet_test ts ctx' = Inr True)"
    by (simp only: all_test_metadata)
  have c: "all_test (content_tests_sets tss) ctx' =
      Inr (\<forall>ts \<in> set (content_tests_sets tss). TestSet_test ts ctx' = Inr True)"
  proof (rule all_test_total)
    fix ts
    assume "ts \<in> set (content_tests_sets tss)"
    then have "ts \<in> set tss"
      by (simp add: content_tests_sets_def)
    with context_fill_hashs_read_value [OF assms(2)] obtain v where "read_value ts ctx' = Inr v"
      by blast
    then show "\<exists>b. TestSet_test ts ctx' = Inr b"
      by (rule TestSet_test_Inr)
  qed
  have s: "(\<forall>ts \<in> set tss. TestSet_test ts ctx' = Inr True) \<longleftrightarrow>
      (\<forall>ts \<in> set (metadata_tests_sets tss). TestSet_test ts ctx' = Inr True) \<and>
      (\<forall>ts \<in> set (content_tests_sets tss). TestSet_test ts ctx' = Inr True)"
    by (auto simp: metadata_tests_sets_def content_tests_sets_def)
  obtain l where l: "context_fill_hashs lib fs tss ?ctx = (Inr ctx', l)"
    using assms(2) by (cases "context_fill_hashs lib fs tss ?ctx") simp
  have "fst (TestSets_test lib fs tss p) =
      Inr ((\<forall>ts \<in> set (metadata_tests_sets tss). TestSet_test ts ctx' = Inr True) \<and>
           (\<forall>ts \<in> set (content_tests_sets tss). TestSet_test ts ctx' = Inr True))"
    using assms(1) by (simp add: TestSets_test_def Let_def m l c)
  then show ?thesis
    by (simp only: s)
qed

lemma get_buffer_size_Inl: "fst (get_buffer_size lib fs ts p) = Inl e \<Longrightarrow> e = OSError"
  by (cases "kind ts")
    (auto simp: get_buffer_size_def getsize_def split: option.splits)

lemma buffer_sizes_Inl: "fst (buffer_sizes lib fs tss p) = Inl e \<Longrightarrow> e = OSError"
proof (induction tss)
  case Nil
  then show ?case by simp
next
  case (Cons ts tss)
  obtain r l where g: "get_buffer_size lib fs ts p = (r, l)"
    by (cases "get_buffer_size lib fs ts p")
  obtain r' l' where b: "buffer_sizes lib fs tss p = (r', l')"
    by (cases "buffer_sizes lib fs tss p")
  show ?case
  proof (cases r)
    case (Inl e1)
    with g Cons.prems have "e = e1"
      by simp
    with get_buffer_size_Inl [of lib fs ts p e1] g Inl show ?thesis
      by simp
  next
    case (Inr bz)
    with g b Cons.prems have "r' = Inl e"
      by (cases r') simp_all
    with Cons.IH b show ?thesis
      by simp
  qed
qed

lemma readinto_Inl: "readinto f pos n = Inl e \<Longrightarrow> e = OSError"
  by (simp add: readinto_def split: if_splits)

lemma read_loop_Inl:
  "fst (read_loop lib f p buf_size pos hashers) = Inl e \<Longrightarrow> e = OSError"
proof (induction lib f p buf_size pos hashers rule: read_loop.induct)
  case (1 lib f p buf_size pos hashers)
  show ?case
  proof (cases "readinto f pos buf_size")
    case (Inl e1)
    with "1.prems" have "e = e1"
      by (simp add: read_loop.simps [of lib f p buf_size pos hashers])
    with Inl show ?thesis
      by (simp add: readinto_Inl)
  next
    case (Inr chunk)
    show ?thesis
    proof (cases "length chunk = 0")
      case True
      with Inr "1.prems" show ?thesis
        by (simp add: read_loop.simps [of lib f p buf_size pos hashers])
    next
      case False
      let ?hs = "map (\<lambda>h. hasher_update lib h chunk) hashers"
      from Inr False "1.prems"
      have "fst (read_loop lib f p buf_size (pos + length chunk) ?hs) = Inl e"
        by (simp add: read_loop.simps [of lib f p buf_size pos hashers] split: prod.splits)
      with "1.IH" [OF Inr False] show ?thesis
        by simp
    qed
  qed
qed

lemma choose_buf_size_Inl: "choose_buf_size lib bzs = Inl e \<Longrightarrow> e = AssertionError"
  by (simp add: choose_buf_size_def split: if_splits)

lemma context_fill_hashs_Inl:
  assumes "fst (context_fill_hashs lib fs tss ctx) = Inl e"
  shows "e = OSError \<or> e = AssertionError"
proof (cases "content_tests_sets tss = []")
  case True
  with assms show ?thesis
    by (simp add: context_fill_hashs_def)
next
  case False
  let ?cts = "content_tests_sets tss"
  obtain r1 l1 where b: "buffer_sizes lib fs ?cts (path ctx) = (r1, l1)"
    by (cases "buffer_sizes lib fs ?cts (path ctx)")
  show ?thesis
  proof (cases r1)
    case (Inl e1)
    with assms False b have "e = e1"
      by (simp add: context_fill_hashs_def)
    with buffer_sizes_Inl [of lib fs ?cts "path ctx" e1] b Inl show ?thesis
      by simp
  next
    case r1: (Inr bzs)
    show ?thesis
    proof (cases "choose_buf_size lib bzs")
      case (Inl e2)
      with assms False b r1 have "e = e2"
        by (simp add: context_fill_hashs_def)
      with choose_buf_size_Inl [OF Inl] show ?thesis
        by simp
    next
      case c: (Inr buf_size)
      obtain hs0 where h: "content_hashers ?cts = Inr hs0"
        using content_hashers_content by blast
      show ?thesis
      proof (cases "open_rb fs (path ctx)")
        case (Inl e3)
        with assms False b r1 c h have "e = e3"
          by (simp add: context_fill_hashs_def)
        with open_rb_Inl [OF Inl] show ?thesis
          by simp
      next
        case (Inr f)
        obtain r2 l2 where r: "read_loop lib f (path ctx) buf_size 0 hs0 = (r2, l2)"
          by (cases "read_loop lib f (path ctx) buf_size 0 hs0")
        from assms False b r1 c h Inr r have "r2 = Inl e"
          by (cases r2) (simp_all add: context_fill_hashs_def)
        with read_loop_Inl [of lib f "path ctx" buf_size 0 hs0 e] r show ?thesis
          by simp
      qed
    qed
  qed
qed

lemma TestSets_add_after_fill:
  assumes "tss \<noteq> []" and "fst (context_fill_hashs lib fs tss (TestContext_init p)) = Inr ctx'"
  shows "fst (TestSets_add lib fs tss p) = Inr ()"
proof -
  obtain l where l: "context_fill_hashs lib fs tss (TestContext_init p) = (Inr ctx', l)"
    using assms(2) by (cases "context_fill_hashs lib fs tss (TestContext_init p)") simp
  have "fst (add_each tss ctx') = Inr ()"
    by (rule add_each_Inr) (rule context_fill_hashs_read_value [OF assms(2)])
  with assms(1) l show ?thesis
    by (cases "add_each tss ctx'") (simp add: TestSets_add_def)
qed

lemma TestSets_add_Inl:
  assumes "fst (TestSets_add lib fs tss p) = Inl e"
  shows "fst (snd (TestSets_add lib fs tss p)) = tss"
    and "tss \<noteq> [] \<Longrightarrow> fst (context_fill_hashs lib fs tss (TestContext_init p)) = Inl e"
proof -
  let ?ctx = "TestContext_init p"
  obtain r l where f: "context_fill_hashs lib fs tss ?ctx = (r, l)"
    by (cases "context_fill_hashs lib fs tss ?ctx")
  have r: "r = Inl e" if "tss \<noteq> []"
  proof (cases r)
    case (Inl e')
    with assms that f show ?thesis
      by (simp add: TestSets_add_def)
  next
    case (Inr ctx')
    with f that TestSets_add_after_fill [of tss lib fs p ctx'] assms show ?thesis
      by simp
  qed
  show "fst (snd (TestSets_add lib fs tss p)) = tss"
  proof (cases "tss = []")
    case True
    then show ?thesis
      by (simp add: TestSets_add_def)
  next
    case False
    with r f show ?thesis
      by (simp add: TestSets_add_def)
  qed
  show "fst (context_fill_hashs lib fs tss ?ctx) = Inl e" if "tss \<noteq> []"
    using r [OF that] f by simp
qed

lemma TestSets_test_no_KeyError: "fst (TestSets_test lib fs tss p) \<noteq> Inl KeyError"
proof (cases "tss = []")
  case True
  then show ?thesis
    by (simp add: TestSets_test_def)
next
  case False
  let ?ctx = "TestContext_init p"
  obtain r l where f: "context_fill_hashs lib fs tss ?ctx = (r, l)"
    by (cases "context_fill_hashs lib fs tss ?ctx")
  show ?thesis
  proof (cases r)
    case (Inl e)
    with f context_fill_hashs_Inl [of lib fs tss ?ctx e] have "e \<noteq> KeyError"
      by auto
    with False f Inl show ?thesis
      by (simp add: TestSets_test_def Let_def all_test_metadata)
  next
    case (Inr ctx')
    with f have "fst (context_fill_hashs lib fs tss ?ctx) = Inr ctx'"
      by simp
    from TestSets_test_after_fill [OF False this] show ?thesis
      by simp
  qed
qed

lemma TestSets_add_no_KeyError: "fst (TestSets_add lib fs tss p) \<noteq> Inl KeyError"
proof
  assume a: "fst (TestSets_add lib fs tss p) = Inl KeyError"
  show False
  proof (cases "tss = []")
    case True
    with a show False
      by (simp add: TestSets_add_def)
  next
    case False
    from context_fill_hashs_Inl [OF TestSets_add_Inl(2) [OF a False]] show False
      by simp
  qed
qed

text \<open>
  Claim C3. If the test of some metadata set of the list is false on the path, then
  \<^verbatim>\<open>TestSets.test\<close> returns false and has caused no file-system event: the size of the
  file was not asked for, the file was not opened and nothing was read from it, on any
  file system and with any content sets in the list.
\<close>

theorem metadata_reject_short_circuit:
  assumes "ts \<in> set tss" and "\<not> is_test_content ts"
    and "TestSet_test ts (TestContext_init p) = Inr False"
  shows "TestSets_test lib fs tss p = (Inr False, [])"
proof -
  from assms(1) have ne: "tss \<noteq> []"
    by auto
  from assms(1,2) have mem: "ts \<in> set (metadata_tests_sets tss)"
    by (simp add: metadata_tests_sets_def)
  have "\<not> (\<forall>ts \<in> set (metadata_tests_sets tss). TestSet_test ts (TestContext_init p) = Inr True)"
  proof
    assume "\<forall>ts \<in> set (metadata_tests_sets tss). TestSet_test ts (TestContext_init p) = Inr True"
    then have "TestSet_test ts (TestContext_init p) = Inr True"
      using mem by (rule bspec)
    with assms(3) show False
      by simp
  qed
  then have "all_test (metadata_tests_sets tss) (TestContext_init p) = Inr False"
    by (simp only: all_test_metadata)
  with ne show ?thesis
    by (simp add: TestSets_test_def)
qed

theorem metadata_reject_short_circuit_witness:
  "TestSets_test example_lib example_fs
     [TestSet_init Sha1TestSet ''sha1.txt'' [''0f05''],
      TestSet_init NameTestSet ''name.txt'' [''other.txt'']] ''/tmp/abc.txt'' = (Inr False, []) \<and>
   TestSets_test example_lib example_fs
     [TestSet_init Sha1TestSet ''sha1.txt'' [''0f05'']] ''/tmp/abc.txt'' =
     (Inr True, [Open ''/tmp/abc.txt'', Readinto ''/tmp/abc.txt'' 4,
        Readinto ''/tmp/abc.txt'' 4, Readinto ''/tmp/abc.txt'' 4])"
proof -
  let ?n = "TestSet_init NameTestSet ''name.txt'' [''other.txt'']"
  let ?s = "TestSet_init Sha1TestSet ''sha1.txt'' [''0f05'']"
  have 1: "?n \<in> set [?s, ?n]"
    by simp
  have 2: "\<not> is_test_content ?n"
    by code_simp
  have 3: "TestSet_test ?n (TestContext_init ''/tmp/abc.txt'') = Inr False"
    by code_simp
  have 4: "TestSets_test example_lib example_fs [?s] ''/tmp/abc.txt'' =
     (Inr True, [Open ''/tmp/abc.txt'', Readinto ''/tmp/abc.txt'' 4,
        Readinto ''/tmp/abc.txt'' 4, Readinto ''/tmp/abc.txt'' 4])"
    by code_simp
  from metadata_reject_short_circuit [OF 1 2 3, of example_lib example_fs] 4 show ?thesis
    by (rule conjI)
qed




text \<open>
  Claim C8. When \<^verbatim>\<open>__context_fill_hashs\<close> has succeeded, the key that a content set of
  the list reads is in \<^verbatim>\<open>ctx.hashs\<close>: \<^verbatim>\<open>'sha1'\<close> for a \<^verbatim>\<open>Sha1TestSet\<close>, \<^verbatim>\<open>'gcid'\<close> for a
  \<^verbatim>\<open>GcidTestSet\<close>; so neither its \<^verbatim>\<open>test\<close> nor its \<^verbatim>\<open>add\<close> raises \<^verbatim>\<open>KeyError\<close>. And
  whatever the sets, the path and the file system, neither \<^verbatim>\<open>TestSets.test\<close> nor
  \<^verbatim>\<open>TestSets.add\<close> raises \<^verbatim>\<open>KeyError\<close>.
\<close>

theorem missing_digest_unreachable:
  assumes "fst (context_fill_hashs lib fs tss ctx) = Inr ctx'"
    and "ts \<in> set tss" and "is_test_content ts"
  shows "(kind ts = Sha1TestSet \<longrightarrow> ''sha1'' \<in> dom (hashs ctx')) \<and>
         (kind ts = GcidTestSet \<longrightarrow> ''gcid'' \<in> dom (hashs ctx')) \<and>
         TestSet_test ts ctx' \<noteq> Inl KeyError \<and>
         fst (TestSet_add ts ctx') \<noteq> Inl KeyError \<and>
         fst (TestSets_test lib fs tss p) \<noteq> Inl KeyError \<and>
         fst (TestSets_add lib fs tss p) \<noteq> Inl KeyError"
proof -
  have s: "''sha1'' \<in> dom (hashs ctx')" if "kind ts = Sha1TestSet"
  proof -
    from that have "get_content_hasher ts = Inr (Sha1Hasher [])"
      by (simp add: get_content_hasher_def)
    from context_fill_hashs_keys [OF assms(1,2) this] show ?thesis
      by simp
  qed
  have g: "''gcid'' \<in> dom (hashs ctx')" if "kind ts = GcidTestSet"
  proof -
    from that have "get_content_hasher ts = Inr (GcidHasher [])"
      by (simp add: get_content_hasher_def)
    from context_fill_hashs_keys [OF assms(1,2) this] show ?thesis
      by simp
  qed
  from context_fill_hashs_read_value [OF assms(1,2)]
  obtain v where v: "read_value ts ctx' = Inr v"
    by blast
  then have t: "TestSet_test ts ctx' \<noteq> Inl KeyError"
    by (simp add: TestSet_test_def)
  from v have a: "fst (TestSet_add ts ctx') \<noteq> Inl KeyError"
    by (simp add: TestSet_add_def)
  from s g t a TestSets_test_no_KeyError [of lib fs tss p]
    TestSets_add_no_KeyError [of lib fs tss p]
  show ?thesis
    by (intro conjI impI)
qed

theorem missing_digest_unreachable_witness:
  "''gcid'' \<in> dom (hashs (projr (fst (context_fill_hashs example_lib example_fs
      [TestSet_init GcidTestSet ''gcid.txt'' [], TestSet_init Sha1TestSet ''sha1.txt'' []]
      (TestContext_init ''/tmp/abc.txt''))))) \<and>
   fst (TestSets_add example_lib example_fs
      [TestSet_init GcidTestSet ''gcid.txt'' [], TestSet_init Sha1TestSet ''sha1.txt'' []]
      ''/tmp/abc.txt'') \<noteq> Inl KeyError"
proof -
  let ?g = "TestSet_init GcidTestSet ''gcid.txt'' []"
  let ?s = "TestSet_init Sha1TestSet ''sha1.txt'' []"
  let ?r = "fst (context_fill_hashs example_lib example_fs [?g, ?s]
    (TestContext_init ''/tmp/abc.txt''))"
  have "\<not> isl ?r"
    by code_simp
  then have 1: "?r = Inr (projr ?r)"
    by simp
  have 2: "?g \<in> set [?g, ?s]"
    by simp
  have 3: "is_test_content ?g"
    by code_simp
  have 4: "kind ?g = GcidTestSet"
    by (simp add: TestSet_init_def)
  from missing_digest_unreachable [OF 1 2 3, of "''/tmp/abc.txt''"] 4 show ?thesis
    by simp
qed

text \<open>
  Claim C9. If \<^verbatim>\<open>TestSets.add\<close> raises, the sets are left as they were; and if what it
  raises is \<^verbatim>\<open>OSError\<close> on a list that is not empty, the exception is that of
  \<^verbatim>\<open>__context_fill_hashs\<close>, raised before \<^verbatim>\<open>add\<close> is called on any set.
\<close>

theorem add_atomic_on_error:
  assumes "fst (TestSets_add lib fs tss p) = Inl e"
  shows "fst (snd (TestSets_add lib fs tss p)) = tss \<and>
         (e = OSError \<longrightarrow>
            fst (context_fill_hashs lib fs tss (TestContext_init p)) = Inl OSError)"
proof -
  have "fst (context_fill_hashs lib fs tss (TestContext_init p)) = Inl OSError"
    if "e = OSError"
  proof (cases "tss = []")
    case True
    with assms that show ?thesis
      by (simp add: TestSets_add_def)
  next
    case False
    from TestSets_add_Inl(2) [OF assms False] that show ?thesis
      by simp
  qed
  with TestSets_add_Inl(1) [OF assms] show ?thesis
    by (intro conjI impI)
qed

theorem add_atomic_on_error_witness:
  "fst (TestSets_add example_lib example_fs
     [TestSet_init NameTestSet ''name.txt'' [], TestSet_init GcidTestSet ''gcid.txt'' []]
     ''/tmp/bad.bin'') = Inl OSError \<and>
   fst (snd (TestSets_add example_lib example_fs
     [TestSet_init NameTestSet ''name.txt'' [], TestSet_init GcidTestSet ''gcid.txt'' []]
     ''/tmp/bad.bin'')) =
     [TestSet_init NameTestSet ''name.txt'' [], TestSet_init GcidTestSet ''gcid.txt'' []] \<and>
   snd (snd (TestSets_add example_lib example_fs
     [TestSet_init NameTestSet ''name.txt'' [], TestSet_init GcidTestSet ''gcid.txt'' []]
     ''/tmp/bad.bin'')) =
     [Getsize ''/tmp/bad.bin'', Open ''/tmp/bad.bin'', Readinto ''/tmp/bad.bin'' 2,
      Readinto ''/tmp/bad.bin'' 2]"
proof -
  let ?tss = "[TestSet_init NameTestSet ''name.txt'' [], TestSet_init GcidTestSet ''gcid.txt'' []]"
  have 1: "fst (TestSets_add example_lib example_fs ?tss ''/tmp/bad.bin'') = Inl OSError"
    by code_simp
  have 2: "snd (snd (TestSets_add example_lib example_fs ?tss ''/tmp/bad.bin'')) =
     [Getsize ''/tmp/bad.bin'', Open ''/tmp/bad.bin'', Readinto ''/tmp/bad.bin'' 2,
      Readinto ''/tmp/bad.bin'' 2]"
    by code_simp
  from add_atomic_on_error [OF 1] have "fst (snd (TestSets_add example_lib example_fs ?tss
      ''/tmp/bad.bin'')) = ?tss"
    by (rule conjunct1)
  with 1 2 show ?thesis
    by (intro conjI)
qed

lemma is_test_content_kind: "kind a = kind b \<Longrightarrow> is_test_content a = is_test_content b"
  by (simp add: is_test_content_def)

lemma get_buffer_size_kind:
  "kind a = kind b \<Longrightarrow> get_buffer_size lib fs a p = get_buffer_size lib fs b p"
  by (simp add: get_buffer_size_def)

lemma get_content_hasher_kind: "kind a = kind b \<Longrightarrow> get_content_hasher a = get_content_hasher b"
  by (simp add: get_content_hasher_def)

lemma content_tests_sets_kind:
  "map kind a = map kind b \<Longrightarrow>
   map kind (content_tests_sets a) = map kind (content_tests_sets b)"
proof (induction a arbitrary: b)
  case Nil
  then show ?case by simp
next
  case (Cons x a)
  then obtain y b' where b: "b = y # b'" and k: "kind x = kind y" and m: "map kind a = map kind b'"
    by (cases b) auto
  from Cons.IH [OF m] is_test_content_kind [OF k] k show ?case
    by (simp add: b content_tests_sets_def)
qed

lemma buffer_sizes_kind:
  "map kind a = map kind b \<Longrightarrow> buffer_sizes lib fs a p = buffer_sizes lib fs b p"
proof (induction a arbitrary: b)
  case Nil
  then show ?case by simp
next
  case (Cons x a)
  then obtain y b' where b: "b = y # b'" and k: "kind x = kind y" and m: "map kind a = map kind b'"
    by (cases b) auto
  show ?case
    unfolding b buffer_sizes.simps Cons.IH [OF m] get_buffer_size_kind [OF k]
    by (rule refl)
qed

lemma content_hashers_kind:
  "map kind a = map kind b \<Longrightarrow> content_hashers a = content_hashers b"
proof (induction a arbitrary: b)
  case Nil
  then show ?case by simp
next
  case (Cons x a)
  then obtain y b' where b: "b = y # b'" and k: "kind x = kind y" and m: "map kind a = map kind b'"
    by (cases b) auto
  show ?case
    unfolding b content_hashers.simps Cons.IH [OF m] get_content_hasher_kind [OF k]
    by (rule refl)
qed

lemma context_fill_hashs_kind:
  assumes "map kind a = map kind b"
  shows "context_fill_hashs lib fs a ctx = context_fill_hashs lib fs b ctx"
proof -
  have m: "map kind (content_tests_sets a) = map kind (content_tests_sets b)"
    using assms by (rule content_tests_sets_kind)
  then have "length (content_tests_sets a) = length (content_tests_sets b)"
    by (rule map_eq_imp_length_eq)
  then have e: "(content_tests_sets a = []) = (content_tests_sets b = [])"
    by auto
  show ?thesis
    unfolding context_fill_hashs_def Let_def
    by (simp only: e buffer_sizes_kind [OF m] content_hashers_kind [OF m])
qed

lemma TestSet_add_kind: "kind (snd (TestSet_add ts ctx)) = kind ts"
  by (simp add: TestSet_add_def split: sum.splits)

lemma TestSet_add_twice:
  assumes "TestSet_add ts ctx = (r, ts')"
  shows "TestSet_add ts' ctx = (r, ts')"
proof -
  have rv: "read_value ts' ctx = read_value ts ctx" and ds: "dataset ts' = dataset ts"
    using assms by (auto simp: TestSet_add_def read_value_def split: sum.splits if_splits)
  show ?thesis
  proof (cases "read_value ts ctx")
    case (Inl e)
    with assms rv show ?thesis
      by (simp add: TestSet_add_def)
  next
    case (Inr v)
    with assms rv ds show ?thesis
      by (auto simp: TestSet_add_def split: if_splits)
  qed
qed

lemma add_each_twice:
  "add_each tss ctx = (r, tss') \<Longrightarrow>
   map kind tss' = map kind tss \<and> add_each tss' ctx = (r, tss')"
proof (induction tss arbitrary: r tss')
  case Nil
  then show ?case by auto
next
  case (Cons ts tss)
  obtain r1 ts1 where a: "TestSet_add ts ctx = (r1, ts1)"
    by (cases "TestSet_add ts ctx")
  from a have a2: "TestSet_add ts1 ctx = (r1, ts1)"
    by (rule TestSet_add_twice)
  from a TestSet_add_kind [of ts ctx] have k: "kind ts1 = kind ts"
    by simp
  show ?case
  proof (cases r1)
    case (Inl e)
    with a Cons.prems have "r = Inl e" and "tss' = ts1 # tss"
      by simp_all
    with a2 Inl k show ?thesis
      by simp
  next
    case (Inr u)
    obtain r2 tss2 where b: "add_each tss ctx = (r2, tss2)"
      by (cases "add_each tss ctx")
    from Cons.IH [OF b] have ih: "map kind tss2 = map kind tss" "add_each tss2 ctx = (r2, tss2)"
      by simp_all
    from a Inr b Cons.prems have "r = r2" and "tss' = ts1 # tss2"
      by simp_all
    with a2 Inr k ih show ?thesis
      by simp
  qed
qed

text \<open>
  Claim C7. Whatever a call of \<^verbatim>\<open>TestSets.add\<close> on a path returns and however it
  leaves the sets, a second call on the same path, with the file system unchanged,
  returns the same, causes the same events and leaves every set as the first call
  left it: accepted and observed values alike.
\<close>

theorem add_twice_same_as_once:
  assumes "TestSets_add lib fs tss p = (r, tss', l)"
  shows "TestSets_add lib fs tss' p = (r, tss', l)"
proof (cases "tss = []")
  case True
  with assms show ?thesis
    by (auto simp: TestSets_add_def)
next
  case False
  let ?ctx = "TestContext_init p"
  obtain rf lf where f: "context_fill_hashs lib fs tss ?ctx = (rf, lf)"
    by (cases "context_fill_hashs lib fs tss ?ctx")
  show ?thesis
  proof (cases rf)
    case (Inl e)
    with assms False f have "tss' = tss"
      by (simp add: TestSets_add_def)
    with assms show ?thesis
      by simp
  next
    case (Inr ctx')
    obtain ra tssa where a: "add_each tss ctx' = (ra, tssa)"
      by (cases "add_each tss ctx'")
    from assms False f Inr a have eq: "r = ra" "tss' = tssa" "l = lf"
      by (simp_all add: TestSets_add_def)
    from add_each_twice [OF a] have k: "map kind tssa = map kind tss"
      and a2: "add_each tssa ctx' = (ra, tssa)"
      by simp_all
    from k False have ne: "tssa \<noteq> []"
      by auto
    from context_fill_hashs_kind [OF k, of lib fs ?ctx] f Inr
    have "context_fill_hashs lib fs tssa ?ctx = (Inr ctx', lf)"
      by simp
    with ne a2 eq show ?thesis
      by (simp add: TestSets_add_def)
  qed
qed

theorem add_twice_same_as_once_witness:
  "TestSets_add example_lib example_fs
     [TestSet_init GcidTestSet ''gcid.txt'' [''0F05''],
      TestSet_init NameTestSet ''name.txt'' [''abc.txt'']] ''/tmp/abc.txt'' =
     (Inr (),
      [\<lparr>kind = GcidTestSet, name = ''gcid.txt'', dataset = {''0f05''},
          adding_rows = {''1406''}\<rparr>,
       \<lparr>kind = NameTestSet, name = ''name.txt'', dataset = {''abc.txt''},
          adding_rows = {}\<rparr>],
      [Getsize ''/tmp/abc.txt'', Open ''/tmp/abc.txt'', Readinto ''/tmp/abc.txt'' 2,
       Readinto ''/tmp/abc.txt'' 2, Readinto ''/tmp/abc.txt'' 2, Readinto ''/tmp/abc.txt'' 2]) \<and>
   TestSets_add example_lib example_fs
     [\<lparr>kind = GcidTestSet, name = ''gcid.txt'', dataset = {''0f05''},
         adding_rows = {''1406''}\<rparr>,
      \<lparr>kind = NameTestSet, name = ''name.txt'', dataset = {''abc.txt''},
         adding_rows = {}\<rparr>] ''/tmp/abc.txt'' =
     (Inr (),
      [\<lparr>kind = GcidTestSet, name = ''gcid.txt'', dataset = {''0f05''},
          adding_rows = {''1406''}\<rparr>,
       \<lparr>kind = NameTestSet, name = ''name.txt'', dataset = {''abc.txt''},
          adding_rows = {}\<rparr>],
      [Getsize ''/tmp/abc.txt'', Open ''/tmp/abc.txt'', Readinto ''/tmp/abc.txt'' 2,
       Readinto ''/tmp/abc.txt'' 2, Readinto ''/tmp/abc.txt'' 2, Readinto ''/tmp/abc.txt'' 2])"
proof -
  have 1: "TestSets_add example_lib example_fs
     [TestSet_init GcidTestSet ''gcid.txt'' [''0F05''],
      TestSet_init NameTestSet ''name.txt'' [''abc.txt'']] ''/tmp/abc.txt'' =
     (Inr (),
      [\<lparr>kind = GcidTestSet, name = ''gcid.txt'', dataset = {''0f05''},
          adding_rows = {''1406''}\<rparr>,
       \<lparr>kind = NameTestSet, name = ''name.txt'', dataset = {''abc.txt''},
          adding_rows = {}\<rparr>],
      [Getsize ''/tmp/abc.txt'', Open ''/tmp/abc.txt'', Readinto ''/tmp/abc.txt'' 2,
       Readinto ''/tmp/abc.txt'' 2, Readinto ''/tmp/abc.txt'' 2, Readinto ''/tmp/abc.txt'' 2])"
    by code_simp
  from 1 add_twice_same_as_once [OF 1] show ?thesis
    by (rule conjI)
qed

subsection \<open>The chunked digest\<close>

lemma hex_digit_lower: "n < 16 \<Longrightarrow> lower_char (hex_digit n) = hex_digit n"
proof -
  assume "n < 16"
  then have mem: "hex_digit n \<in> set ''0123456789abcdef''"
    unfolding hex_digit_def by (intro nth_mem) simp
  have "\<forall>c \<in> set ''0123456789abcdef''. lower_char c = c"
    by (simp add: lower_char_def)
  then show ?thesis
    using mem by (rule bspec)
qed

lemma hex_digits_less:
  fixes b :: byte
  shows "unat b div 16 < 16" and "unat b mod 16 < 16"
proof -
  have "unat b < 256"
    using unsigned_less [of b, where ?'a = nat] by simp
  then show "unat b div 16 < 16"
    by arith
  show "unat b mod 16 < 16"
    by simp
qed

lemma lower_hex: "lower (hex bs) = hex bs"
  by (induction bs) (simp_all add: hex_def lower_def hex_digit_lower hex_digits_less)

lemma spec_pieces_Nil: "P = 0 \<or> xs = [] \<Longrightarrow> spec_pieces P xs = []"
  by (subst spec_pieces.simps) simp

lemma spec_pieces_Cons:
  "0 < P \<Longrightarrow> xs \<noteq> [] \<Longrightarrow> spec_pieces P xs = take P xs # spec_pieces P (drop P xs)"
  by (subst spec_pieces.simps) simp

lemma concat_spec_pieces: "0 < P \<Longrightarrow> concat (spec_pieces P xs) = xs"
proof (induction P xs rule: spec_pieces.induct)
  case (1 P xs)
  show ?case
  proof (cases "xs = []")
    case True
    then show ?thesis
      by (simp add: spec_pieces_Nil)
  next
    case False
    with "1.prems" have "concat (spec_pieces P (drop P xs)) = drop P xs"
      by (intro "1.IH") simp_all
    with False "1.prems" show ?thesis
      by (simp add: spec_pieces_Cons)
  qed
qed

lemma drop_after_chunk:
  "drop (pos + length (take n (drop pos xs))) xs = drop n (drop pos xs)"
proof (cases "n \<le> length xs - pos")
  case True
  then show ?thesis
    by (simp add: min_def add.commute)
next
  case False
  then show ?thesis
    by (simp add: min_def)
qed

lemma read_loop_pieces:
  "fst (read_loop lib f p buf_size pos hashers) = Inr hs \<Longrightarrow>
   hs = map (\<lambda>h. foldl (hasher_update lib) h (spec_pieces buf_size (drop pos (content f))))
          hashers"
proof (induction lib f p buf_size pos hashers arbitrary: hs rule: read_loop.induct)
  case (1 lib f p buf_size pos hashers)
  let ?rest = "drop pos (content f)"
  show ?case
  proof (cases "readinto f pos buf_size")
    case (Inl e)
    with "1.prems" show ?thesis
      by (simp add: read_loop.simps [of lib f p buf_size pos hashers])
  next
    case (Inr chunk)
    then have chunk: "chunk = take buf_size ?rest"
      by (simp add: readinto_def split: if_splits)
    show ?thesis
    proof (cases "length chunk = 0")
      case True
      with chunk have "buf_size = 0 \<or> ?rest = []"
        by auto
      then have "spec_pieces buf_size ?rest = []"
        by (rule spec_pieces_Nil)
      moreover from Inr True "1.prems" have "hs = hashers"
        by (simp add: read_loop.simps [of lib f p buf_size pos hashers])
      ultimately show ?thesis
        by simp
    next
      case False
      let ?hs = "map (\<lambda>h. hasher_update lib h chunk) hashers"
      from False chunk have pos: "0 < buf_size" and ne: "?rest \<noteq> []"
        by auto
      from Inr False "1.prems"
      have "fst (read_loop lib f p buf_size (pos + length chunk) ?hs) = Inr hs"
        by (simp add: read_loop.simps [of lib f p buf_size pos hashers] split: prod.splits)
      from "1.IH" [OF Inr False this]
      have "hs = map (\<lambda>h. foldl (hasher_update lib) h
          (spec_pieces buf_size (drop (pos + length chunk) (content f)))) ?hs" .
      also have "drop (pos + length chunk) (content f) = drop buf_size ?rest"
        unfolding chunk by (rule drop_after_chunk)
      finally have "hs = map (\<lambda>h. foldl (hasher_update lib) h
          (chunk # spec_pieces buf_size (drop buf_size ?rest))) hashers"
        by (simp add: comp_def)
      then show ?thesis
        by (simp add: spec_pieces_Cons [OF pos ne] chunk)
    qed
  qed
qed

lemma foldl_GcidHasher:
  "foldl (hasher_update lib) (GcidHasher acc) chunks =
     GcidHasher (acc @ concat (map (sha1 lib) chunks))"
  by (induction chunks arbitrary: acc) simp_all

lemma foldl_Sha1Hasher:
  "foldl (hasher_update lib) (Sha1Hasher acc) chunks = Sha1Hasher (acc @ concat chunks)"
  by (induction chunks arbitrary: acc) simp_all

lemma store_digests_snoc:
  "store_digests lib (hs @ [h]) ctx =
     (store_digests lib hs ctx)
       \<lparr>hashs := (hashs (store_digests lib hs ctx))
          (hasher_name h \<mapsto> lower (hex (hasher_digest lib h)))\<rparr>"
  by (simp add: store_digests_def)

lemma store_digests_lookup:
  assumes "h \<in> set hs"
    and "\<And>h'. h' \<in> set hs \<Longrightarrow> hasher_name h' = hasher_name h \<Longrightarrow>
      hasher_digest lib h' = hasher_digest lib h"
  shows "hashs (store_digests lib hs ctx) (hasher_name h) = Some (hex (hasher_digest lib h))"
  using assms
proof (induction hs rule: rev_induct)
  case Nil
  then show ?case by simp
next
  case (snoc x hs)
  show ?case
  proof (cases "hasher_name x = hasher_name h")
    case True
    with snoc.prems(2) [of x] have "hasher_digest lib x = hasher_digest lib h"
      by simp
    with True show ?thesis
      by (simp add: store_digests_snoc lower_hex)
  next
    case False
    with snoc.prems(1) have "h \<in> set hs"
      by auto
    then have "hashs (store_digests lib hs ctx) (hasher_name h) =
        Some (hex (hasher_digest lib h))"
      by (rule snoc.IH) (simp add: snoc.prems(2))
    with False show ?thesis
      by (simp add: store_digests_snoc)
  qed
qed

lemma content_hashers_fresh:
  assumes "content_hashers tss = Inr hs0"
  shows "set hs0 \<subseteq> {Sha1Hasher [], GcidHasher []}"
    and "ts \<in> set tss \<Longrightarrow> kind ts = GcidTestSet \<Longrightarrow> GcidHasher [] \<in> set hs0"
    and "ts \<in> set tss \<Longrightarrow> kind ts = Sha1TestSet \<Longrightarrow> Sha1Hasher [] \<in> set hs0"
proof -
  have l: "list_all2 (\<lambda>ts h. get_content_hasher ts = Inr h) tss hs0"
    using assms by (rule content_hashers_Inr)
  show "set hs0 \<subseteq> {Sha1Hasher [], GcidHasher []}"
  proof
    fix h
    assume "h \<in> set hs0"
    then obtain i where "i < length hs0" and "hs0 ! i = h"
      by (auto simp: in_set_conv_nth)
    with l have "get_content_hasher (tss ! i) = Inr h"
      by (auto simp: list_all2_conv_all_nth)
    then show "h \<in> {Sha1Hasher [], GcidHasher []}"
      by (cases "kind (tss ! i)") (auto simp: get_content_hasher_def)
  qed
  have mem: "h \<in> set hs0" if "ts \<in> set tss" and "get_content_hasher ts = Inr h" for h
  proof -
    from that(1) obtain i where i: "i < length tss" and "tss ! i = ts"
      by (auto simp: in_set_conv_nth)
    with l that(2) have "i < length hs0" and "hs0 ! i = h"
      by (auto simp: list_all2_conv_all_nth)
    then show ?thesis
      by auto
  qed
  show "GcidHasher [] \<in> set hs0" if "ts \<in> set tss" and "kind ts = GcidTestSet"
    using that by (intro mem [of "GcidHasher []"]) (simp_all add: get_content_hasher_def)
  show "Sha1Hasher [] \<in> set hs0" if "ts \<in> set tss" and "kind ts = Sha1TestSet"
    using that by (intro mem [of "Sha1Hasher []"]) (simp_all add: get_content_hasher_def)
qed

lemma buffer_sizes_Some:
  assumes "fs p = Some f"
  shows "fst (buffer_sizes lib fs tss p) =
    Inr (if get_gcid_piece_size lib (length (content f)) = 0 then []
         else replicate (length (filter (\<lambda>ts. kind ts = GcidTestSet) tss))
                (get_gcid_piece_size lib (length (content f))))"
proof (induction tss)
  case Nil
  show ?case by simp
next
  case (Cons ts tss)
  obtain r l where b: "buffer_sizes lib fs tss p = (r, l)"
    by (cases "buffer_sizes lib fs tss p")
  with Cons.IH have r: "r = Inr (if get_gcid_piece_size lib (length (content f)) = 0 then []
         else replicate (length (filter (\<lambda>ts. kind ts = GcidTestSet) tss))
                (get_gcid_piece_size lib (length (content f))))"
    by simp
  show ?case
    using assms b r
    by (cases "kind ts") (simp_all add: get_buffer_size_def getsize_def)
qed

lemma gcid_buf_size:
  assumes "fs p = Some f" and "ts \<in> set tss" and "kind ts = GcidTestSet"
    and "0 < get_gcid_piece_size lib (length (content f))"
    and "fst (buffer_sizes lib fs tss p) = Inr bzs"
    and "choose_buf_size lib bzs = Inr buf_size"
  shows "buf_size = get_gcid_piece_size lib (length (content f))"
proof -
  let ?P = "get_gcid_piece_size lib (length (content f))"
  let ?k = "length (filter (\<lambda>ts. kind ts = GcidTestSet) tss)"
  from buffer_sizes_Some [where fs = fs and p = p and f = f and lib = lib and tss = tss, OF assms(1)]
    assms(4,5) have bzs: "bzs = replicate ?k ?P"
    by simp
  from assms(2,3) have "filter (\<lambda>ts. kind ts = GcidTestSet) tss \<noteq> []"
    by (auto simp: filter_empty_conv)
  then have "0 < ?k"
    by simp
  with bzs assms(6) show ?thesis
    by (auto simp: choose_buf_size_def split: if_splits)
qed

text \<open>
  Claim C1. A \<^verbatim>\<open>_GcidHasher\<close> that has been fed a sequence of buffers returns SHA-1 of
  the concatenation of their SHA-1 digests, in order. When \<^verbatim>\<open>__context_fill_hashs\<close>
  succeeds for a list that holds a \<^verbatim>\<open>GcidTestSet\<close>, on a file for whose length the piece
  size is positive, the digest stored under \<^verbatim>\<open>'gcid'\<close> is the hexadecimal form of the
  digest that the specification describes: the file cut into consecutive pieces of the
  piece size, the last one holding the remainder, and SHA-1 taken of the concatenated
  SHA-1 digests of the pieces; the pieces put together are the file. For the file of
  no byte this is SHA-1 of the empty byte sequence.
\<close>

theorem gcid_is_sha1_of_piece_digests:
  assumes "fst (context_fill_hashs lib fs tss ctx) = Inr ctx'"
    and "ts \<in> set tss" and "kind ts = GcidTestSet"
    and "fs (path ctx) = Some f"
    and "0 < get_gcid_piece_size lib (length (content f))"
  shows "hasher_digest lib (foldl (hasher_update lib) (GcidHasher []) chunks) =
           sha1 lib (concat (map (sha1 lib) chunks)) \<and>
         hashs ctx' ''gcid'' =
           Some (hex (spec_gcid lib
             (spec_pieces (get_gcid_piece_size lib (length (content f))) (content f)))) \<and>
         concat (spec_pieces (get_gcid_piece_size lib (length (content f))) (content f)) =
           content f \<and>
         (content f = [] \<longrightarrow> hashs ctx' ''gcid'' = Some (hex (sha1 lib [])))"
proof -
  let ?P = "get_gcid_piece_size lib (length (content f))"
  let ?ps = "spec_pieces ?P (content f)"
  have c: "is_test_content ts"
    using assms(3) by (simp add: is_test_content_def)
  with assms(2) have mem: "ts \<in> set (content_tests_sets tss)"
    by (simp add: content_tests_sets_def)
  have h: "hasher_digest lib (foldl (hasher_update lib) (GcidHasher []) chunks) =
      sha1 lib (concat (map (sha1 lib) chunks))"
    by (simp add: foldl_GcidHasher)
  from assms(1) have d: "hashs ctx' ''gcid'' = Some (hex (spec_gcid lib ?ps))"
  proof (cases rule: context_fill_hashs_Inr)
    case 1
    with mem show ?thesis
      by simp
  next
    case (2 bzs buf_size hs0 f' hs)
    from 2(5) assms(4) have f': "f' = f"
      by simp
    have bs: "buf_size = ?P"
      using assms(4) mem assms(3,5) 2(2,3) by (rule gcid_buf_size)
    have hs: "hs = map (\<lambda>h. foldl (hasher_update lib) h ?ps) hs0"
      using read_loop_pieces [OF 2(6)] by (simp add: f' bs)
    let ?g = "GcidHasher (concat (map (sha1 lib) ?ps))"
    from content_hashers_fresh(2) [OF 2(4) mem assms(3)] have "?g \<in> set hs"
      by (auto simp: hs foldl_GcidHasher image_iff intro!: bexI [of _ "GcidHasher []"])
    moreover have "hasher_digest lib h' = hasher_digest lib ?g"
      if "h' \<in> set hs" and "hasher_name h' = hasher_name ?g" for h'
    proof -
      from that(1) obtain h0 where "h0 \<in> set hs0" and "h' = foldl (hasher_update lib) h0 ?ps"
        by (auto simp: hs)
      with content_hashers_fresh(1) [OF 2(4)] that(2) show ?thesis
        by (auto simp: foldl_GcidHasher foldl_Sha1Hasher)
    qed
    ultimately have "hashs (store_digests lib hs ctx) (hasher_name ?g) =
        Some (hex (hasher_digest lib ?g))"
      by (rule store_digests_lookup)
    then show ?thesis
      by (simp add: 2(7) spec_gcid_def)
  qed
  have cc: "concat ?ps = content f"
    using assms(5) by (rule concat_spec_pieces)
  have e: "hashs ctx' ''gcid'' = Some (hex (sha1 lib []))" if "content f = []"
    using d that by (simp add: spec_pieces_Nil spec_gcid_def)
  from h d cc e show ?thesis
    by (intro conjI impI)
qed

theorem gcid_is_sha1_of_piece_digests_witness:
  "hashs (projr (fst (context_fill_hashs example_lib example_fs
      [TestSet_init Sha1TestSet ''sha1.txt'' [], TestSet_init GcidTestSet ''gcid.txt'' []]
      (TestContext_init ''/tmp/abc.txt'')))) ''gcid'' = Some ''1406'' \<and>
   spec_pieces 2 [1, 2, 3, 4, 5 :: byte] = [[1, 2], [3, 4], [5]] \<and>
   hashs (projr (fst (context_fill_hashs example_lib example_fs
      [TestSet_init GcidTestSet ''gcid.txt'' []]
      (TestContext_init ''/tmp/empty'')))) ''gcid'' = Some ''0000''"
proof -
  let ?s = "TestSet_init Sha1TestSet ''sha1.txt'' []"
  let ?g = "TestSet_init GcidTestSet ''gcid.txt'' []"
  let ?f = "\<lparr>content = [1, 2, 3, 4, 5 :: byte], readable = True, fault = None\<rparr>"
  let ?e = "\<lparr>content = [] :: byte list, readable = True, fault = None\<rparr>"
  let ?r = "fst (context_fill_hashs example_lib example_fs [?s, ?g]
    (TestContext_init ''/tmp/abc.txt''))"
  let ?q = "fst (context_fill_hashs example_lib example_fs [?g] (TestContext_init ''/tmp/empty''))"
  have "\<not> isl ?r"
    by code_simp
  then have r: "?r = Inr (projr ?r)"
    by simp
  have "\<not> isl ?q"
    by code_simp
  then have q: "?q = Inr (projr ?q)"
    by simp
  have k: "kind ?g = GcidTestSet"
    by (simp add: TestSet_init_def)
  have f: "example_fs (path (TestContext_init ''/tmp/abc.txt'')) = Some ?f"
    by (simp add: example_fs_def TestContext_init_def)
  have e: "example_fs (path (TestContext_init ''/tmp/empty'')) = Some ?e"
    by (simp add: example_fs_def TestContext_init_def)
  have p: "0 < get_gcid_piece_size example_lib (length (content ?f))"
    and p': "0 < get_gcid_piece_size example_lib (length (content ?e))"
    by (simp_all add: example_lib_def)
  have v: "hex (spec_gcid example_lib
      (spec_pieces (get_gcid_piece_size example_lib (length (content ?f))) (content ?f))) = ''1406''"
    by code_simp
  have w: "hex (sha1 example_lib []) = ''0000''"
    by code_simp
  have s: "spec_pieces 2 [1, 2, 3, 4, 5 :: byte] = [[1, 2], [3, 4], [5]]"
    by code_simp
  have m: "?g \<in> set [?s, ?g]" and m': "?g \<in> set [?g]"
    by simp_all
  from gcid_is_sha1_of_piece_digests [where ts = ?g, OF r m k f p, THEN conjunct2, THEN conjunct1]
  have "hashs (projr ?r) ''gcid'' = Some (hex (spec_gcid example_lib
      (spec_pieces (get_gcid_piece_size example_lib (length (content ?f))) (content ?f))))" .
  then have 1: "hashs (projr ?r) ''gcid'' = Some ''1406''"
    by (simp only: v)
  from gcid_is_sha1_of_piece_digests [where ts = ?g, OF q m' k e p', THEN conjunct2,
    THEN conjunct2, THEN conjunct2]
  have "content ?e = [] \<longrightarrow> hashs (projr ?q) ''gcid'' = Some (hex (sha1 example_lib []))" .
  then have 2: "hashs (projr ?q) ''gcid'' = Some ''0000''"
    by (simp add: w)
  from 1 s 2 show ?thesis
    by (intro conjI)
qed

subsection \<open>The read buffer\<close>

lemma read_sizes_append: "read_sizes (a @ b) = read_sizes a @ read_sizes b"
  by (induction a rule: read_sizes.induct) simp_all

lemma read_sizes_get_buffer_size: "read_sizes (snd (get_buffer_size lib fs ts p)) = []"
  by (cases "kind ts") (simp_all add: get_buffer_size_def split: sum.splits)

lemma read_sizes_buffer_sizes: "read_sizes (snd (buffer_sizes lib fs tss p)) = []"
proof (induction tss)
  case Nil
  show ?case by simp
next
  case (Cons ts tss)
  obtain r l where g: "get_buffer_size lib fs ts p = (r, l)"
    by (cases "get_buffer_size lib fs ts p")
  obtain r' l' where b: "buffer_sizes lib fs tss p = (r', l')"
    by (cases "buffer_sizes lib fs tss p")
  from g read_sizes_get_buffer_size [of lib fs ts p] have l: "read_sizes l = []"
    by simp
  from b Cons.IH have l': "read_sizes l' = []"
    by simp
  from g b l l' show ?case
    by (cases r; cases r') (simp_all add: read_sizes_append)
qed

lemma read_sizes_read_loop:
  "set (read_sizes (snd (read_loop lib f p buf_size pos hashers))) = {buf_size}"
proof (induction lib f p buf_size pos hashers rule: read_loop.induct)
  case (1 lib f p buf_size pos hashers)
  show ?case
  proof (cases "readinto f pos buf_size")
    case (Inl e)
    then show ?thesis
      by (simp add: read_loop.simps [of lib f p buf_size pos hashers])
  next
    case (Inr chunk)
    show ?thesis
    proof (cases "length chunk = 0")
      case True
      with Inr show ?thesis
        by (simp add: read_loop.simps [of lib f p buf_size pos hashers])
    next
      case False
      let ?next = "read_loop lib f p buf_size (pos + length chunk)
        (map (\<lambda>h. hasher_update lib h chunk) hashers)"
      from "1.IH" [OF Inr False] have "set (read_sizes (snd ?next)) = {buf_size}" .
      with Inr False show ?thesis
        by (cases ?next) (simp add: read_loop.simps [of lib f p buf_size pos hashers])
    qed
  qed
qed

lemma context_fill_hashs_sized:
  assumes "content_tests_sets tss \<noteq> []"
    and "fst (buffer_sizes lib fs (content_tests_sets tss) (path ctx)) = Inr bzs"
    and "choose_buf_size lib bzs = Inr buf_size"
  shows "fst (context_fill_hashs lib fs tss ctx) \<noteq> Inl AssertionError"
    and "set (read_sizes (snd (context_fill_hashs lib fs tss ctx))) =
      (if isl (open_rb fs (path ctx)) then {} else {buf_size})"
proof -
  let ?cts = "content_tests_sets tss"
  obtain l1 where b: "buffer_sizes lib fs ?cts (path ctx) = (Inr bzs, l1)"
    using assms(2) by (cases "buffer_sizes lib fs ?cts (path ctx)") simp
  from b read_sizes_buffer_sizes [of lib fs ?cts "path ctx"] have l1: "read_sizes l1 = []"
    by simp
  obtain hs0 where h: "content_hashers ?cts = Inr hs0"
    using content_hashers_content by blast
  have both: "fst (context_fill_hashs lib fs tss ctx) \<noteq> Inl AssertionError \<and>
      set (read_sizes (snd (context_fill_hashs lib fs tss ctx))) =
        (if isl (open_rb fs (path ctx)) then {} else {buf_size})"
  proof (cases "open_rb fs (path ctx)")
    case (Inl e)
    with assms(1,3) b h
    have "context_fill_hashs lib fs tss ctx = (Inl e, l1 @ [Open (path ctx)])"
      by (simp add: context_fill_hashs_def)
    with open_rb_Inl [OF Inl] Inl l1 show ?thesis
      by (simp add: read_sizes_append)
  next
    case (Inr f)
    obtain r2 l2 where r: "read_loop lib f (path ctx) buf_size 0 hs0 = (r2, l2)"
      by (cases "read_loop lib f (path ctx) buf_size 0 hs0")
    from r read_sizes_read_loop [of lib f "path ctx" buf_size 0 hs0]
    have l2: "set (read_sizes l2) = {buf_size}"
      by simp
    have r2: "r2 \<noteq> Inl AssertionError"
    proof
      assume "r2 = Inl AssertionError"
      with r read_loop_Inl [of lib f "path ctx" buf_size 0 hs0 AssertionError] show False
        by simp
    qed
    from assms(1,3) b h Inr r have "context_fill_hashs lib fs tss ctx =
        (case r2 of Inl e \<Rightarrow> (Inl e, l1 @ Open (path ctx) # l2)
         | Inr hs \<Rightarrow> (Inr (store_digests lib hs ctx), l1 @ Open (path ctx) # l2))"
      by (simp add: context_fill_hashs_def)
    with r2 l1 l2 Inr show ?thesis
      by (cases r2) (simp_all add: read_sizes_append)
  qed
  from both show "fst (context_fill_hashs lib fs tss ctx) \<noteq> Inl AssertionError"
    by (rule conjunct1)
  from both show "set (read_sizes (snd (context_fill_hashs lib fs tss ctx))) =
      (if isl (open_rb fs (path ctx)) then {} else {buf_size})"
    by (rule conjunct2)
qed

text \<open>
  Claim C4, as the code has it. Take a list with a content set and a path whose buffer
  sizes can be collected into \<^verbatim>\<open>buf_sizes\<close> (every size that is neither \<^verbatim>\<open>None\<close> nor
  zero, one for each set that gives one, equal or not). Then \<^verbatim>\<open>__context_fill_hashs\<close>
  fails its assertion exactly when \<^verbatim>\<open>buf_sizes\<close> has more than one element. With exactly
  one element, every \<^verbatim>\<open>readinto\<close> call that is made uses a buffer of that size; with
  none, every one uses a buffer of \<^verbatim>\<open>io.DEFAULT_BUFFER_SIZE\<close> bytes. In both cases at
  least one call is made when the file opens, and none when \<^verbatim>\<open>open\<close> raises.
\<close>

theorem assertion_iff_several_buffer_sizes:
  assumes "content_tests_sets tss \<noteq> []"
    and "fst (buffer_sizes lib fs (content_tests_sets tss) (path ctx)) = Inr bzs"
  shows "(fst (context_fill_hashs lib fs tss ctx) = Inl AssertionError \<longleftrightarrow> 1 < length bzs) \<and>
         (length bzs = 1 \<longrightarrow>
            set (read_sizes (snd (context_fill_hashs lib fs tss ctx))) =
              (if isl (open_rb fs (path ctx)) then {} else {bzs ! 0})) \<and>
         (bzs = [] \<longrightarrow>
            set (read_sizes (snd (context_fill_hashs lib fs tss ctx))) =
              (if isl (open_rb fs (path ctx)) then {} else {DEFAULT_BUFFER_SIZE lib}))"
proof -
  let ?cts = "content_tests_sets tss"
  let ?r = "context_fill_hashs lib fs tss ctx"
  obtain l1 where b: "buffer_sizes lib fs ?cts (path ctx) = (Inr bzs, l1)"
    using assms(2) by (cases "buffer_sizes lib fs ?cts (path ctx)") simp
  have many: "fst ?r = Inl AssertionError" if "1 < length bzs"
  proof -
    from that have "choose_buf_size lib bzs = Inl AssertionError"
      by (auto simp: choose_buf_size_def)
    with assms(1) b show ?thesis
      by (simp add: context_fill_hashs_def)
  qed
  have few: "fst ?r \<noteq> Inl AssertionError" if "\<not> 1 < length bzs"
  proof -
    from that obtain buf_size where "choose_buf_size lib bzs = Inr buf_size"
      by (cases bzs) (auto simp: choose_buf_size_def)
    from context_fill_hashs_sized(1) [OF assms this] show ?thesis .
  qed
  have one: "set (read_sizes (snd ?r)) =
      (if isl (open_rb fs (path ctx)) then {} else {bzs ! 0})" if "length bzs = 1"
  proof -
    from that have "choose_buf_size lib bzs = Inr (bzs ! 0)"
      by (auto simp: choose_buf_size_def)
    from context_fill_hashs_sized(2) [OF assms this] show ?thesis .
  qed
  have zero: "set (read_sizes (snd ?r)) =
      (if isl (open_rb fs (path ctx)) then {} else {DEFAULT_BUFFER_SIZE lib})" if "bzs = []"
  proof -
    from that have "choose_buf_size lib bzs = Inr (DEFAULT_BUFFER_SIZE lib)"
      by (simp add: choose_buf_size_def)
    from context_fill_hashs_sized(2) [OF assms this] show ?thesis .
  qed
  from many few one zero show ?thesis
    by blast
qed

theorem assertion_iff_several_buffer_sizes_witness:
  "set (read_sizes (snd (context_fill_hashs example_lib example_fs
     [TestSet_init GcidTestSet ''gcid.txt'' [], TestSet_init Sha1TestSet ''sha1.txt'' []]
     (TestContext_init ''/tmp/abc.txt'')))) = {2} \<and>
   set (read_sizes (snd (context_fill_hashs example_lib example_fs
     [TestSet_init Sha1TestSet ''sha1.txt'' []] (TestContext_init ''/tmp/abc.txt'')))) = {4} \<and>
   fst (context_fill_hashs example_lib example_fs
     [TestSet_init GcidTestSet ''gcid.txt'' [], TestSet_init Sha1TestSet ''sha1.txt'' []]
     (TestContext_init ''/tmp/abc.txt'')) \<noteq> Inl AssertionError \<and>
   fst (buffer_sizes example_lib example_fs
     (content_tests_sets [TestSet_init GcidTestSet ''gcid.txt'' []]) ''/tmp/locked'') =
     Inr [2] \<and>
   snd (context_fill_hashs example_lib example_fs
     [TestSet_init GcidTestSet ''gcid.txt'' []] (TestContext_init ''/tmp/locked'')) =
     [Getsize ''/tmp/locked'', Open ''/tmp/locked''] \<and>
   set (read_sizes (snd (context_fill_hashs example_lib example_fs
     [TestSet_init GcidTestSet ''gcid.txt'' []] (TestContext_init ''/tmp/locked'')))) = {}"
proof -
  let ?g = "TestSet_init GcidTestSet ''gcid.txt'' []"
  let ?s = "TestSet_init Sha1TestSet ''sha1.txt'' []"
  let ?ctx = "TestContext_init ''/tmp/abc.txt''"
  let ?lck = "TestContext_init ''/tmp/locked''"
  have c1: "content_tests_sets [?g, ?s] \<noteq> []"
    by code_simp
  have c1s: "content_tests_sets [?s] \<noteq> []"
    by code_simp
  have c1g: "content_tests_sets [?g] \<noteq> []"
    by code_simp
  have c2: "fst (buffer_sizes example_lib example_fs (content_tests_sets [?g, ?s]) (path ?ctx)) =
      Inr [2]"
    by code_simp
  have c2s: "fst (buffer_sizes example_lib example_fs (content_tests_sets [?s]) (path ?ctx)) =
      Inr []"
    by code_simp
  have c2g: "fst (buffer_sizes example_lib example_fs (content_tests_sets [?g]) (path ?lck)) =
      Inr [2]"
    by code_simp
  have f: "\<not> isl (open_rb example_fs (path ?ctx))"
    by (simp add: open_rb_def example_fs_def TestContext_init_def)
  have k: "isl (open_rb example_fs (path ?lck))"
    by (simp add: open_rb_def example_fs_def TestContext_init_def)
  have d: "DEFAULT_BUFFER_SIZE example_lib = 4"
    by (simp add: example_lib_def)
  have ev: "snd (context_fill_hashs example_lib example_fs [?g] ?lck) =
      [Getsize ''/tmp/locked'', Open ''/tmp/locked'']"
    by code_simp
  have pl: "path ?lck = ''/tmp/locked''"
    by (simp add: TestContext_init_def)
  note t = assertion_iff_several_buffer_sizes [OF c1 c2]
  note t' = assertion_iff_several_buffer_sizes [OF c1s c2s]
  note t'' = assertion_iff_several_buffer_sizes [OF c1g c2g]
  from t f have a: "set (read_sizes (snd (context_fill_hashs example_lib example_fs [?g, ?s] ?ctx))) =
      {2}"
    by simp
  from t have n: "fst (context_fill_hashs example_lib example_fs [?g, ?s] ?ctx) \<noteq>
      Inl AssertionError"
    by simp
  from t' f d
  have b: "set (read_sizes (snd (context_fill_hashs example_lib example_fs [?s] ?ctx))) = {4}"
    by simp
  from t'' k
  have c: "set (read_sizes (snd (context_fill_hashs example_lib example_fs [?g] ?lck))) = {}"
    by simp
  from c2g pl have c2g': "fst (buffer_sizes example_lib example_fs (content_tests_sets [?g])
      ''/tmp/locked'') = Inr [2]"
    by simp
  from a b n c2g' ev c show ?thesis
    by (intro conjI)
qed

text \<open>
  The claim as the specification words it fails: two \<^verbatim>\<open>GcidTestSet\<close> objects, as the
  options \<^verbatim>\<open>--gcid\<close> and \<^verbatim>\<open>--from-dir\<close> together give, report the same buffer size for
  the file, one distinct value, and the assertion fails all the same.
\<close>

theorem equal_buffer_sizes_counterexample:
  "fst (buffer_sizes example_lib example_fs
     (content_tests_sets
        [TestSet_init GcidTestSet ''gcid.txt'' [], TestSet_init GcidTestSet ''dir/gcid.txt'' []])
     ''/tmp/abc.txt'') = Inr [2, 2] \<and>
   card (set [2 :: nat, 2]) = 1 \<and>
   fst (context_fill_hashs example_lib example_fs
     [TestSet_init GcidTestSet ''gcid.txt'' [], TestSet_init GcidTestSet ''dir/gcid.txt'' []]
     (TestContext_init ''/tmp/abc.txt'')) = Inl AssertionError \<and>
   fst (TestSets_test example_lib example_fs
     [TestSet_init GcidTestSet ''gcid.txt'' [], TestSet_init GcidTestSet ''dir/gcid.txt'' []]
     ''/tmp/abc.txt'') = Inl AssertionError"
proof -
  let ?tss = "[TestSet_init GcidTestSet ''gcid.txt'' [],
    TestSet_init GcidTestSet ''dir/gcid.txt'' []]"
  have "fst (buffer_sizes example_lib example_fs (content_tests_sets ?tss) ''/tmp/abc.txt'') =
      Inr [2, 2]"
    by code_simp
  moreover have "card (set [2 :: nat, 2]) = 1"
    by simp
  moreover have "fst (context_fill_hashs example_lib example_fs ?tss
      (TestContext_init ''/tmp/abc.txt'')) = Inl AssertionError"
  proof -
    let ?r = "fst (context_fill_hashs example_lib example_fs ?tss
      (TestContext_init ''/tmp/abc.txt''))"
    have "isl ?r" and "projl ?r = AssertionError"
      by code_simp+
    then show ?thesis
      by (cases ?r) simp_all
  qed
  moreover have "fst (TestSets_test example_lib example_fs ?tss ''/tmp/abc.txt'') =
      Inl AssertionError"
    by code_simp
  ultimately show ?thesis
    by (intro conjI)
qed

end
